theory Spec2Isabelle
  imports Main "HOL-Library.Char_ord" "HOL-Library.List_Lexorder" "HOL-Library.Multiset"
begin

section \<open>Strings\<close>

text \<open>
  A JavaScript string is a sequence of UTF-16 code units and \<open>length\<close> counts them.
  The model writes a string as a \<^typ>\<open>string\<close>, one \<^typ>\<open>char\<close> for each code unit, so it
  covers the texts whose code units are below 256. A code unit outside ASCII is neither a
  word character, nor a hexadecimal digit, nor a letter of a name, in the source as in
  the model.
\<close>

definition isDigit :: "char \<Rightarrow> bool" where
  "isDigit c = (CHR ''0'' \<le> c \<and> c \<le> CHR ''9'')"

definition isLower :: "char \<Rightarrow> bool" where
  "isLower c = (CHR ''a'' \<le> c \<and> c \<le> CHR ''z'')"

definition isUpper :: "char \<Rightarrow> bool" where
  "isUpper c = (CHR ''A'' \<le> c \<and> c \<le> CHR ''Z'')"

text \<open>The class \<open>\w\<close> of a regular expression: \<open>[A-Za-z0-9_]\<close>.\<close>

definition isWordChar :: "char \<Rightarrow> bool" where
  "isWordChar c = (isLower c \<or> isUpper c \<or> isDigit c \<or> c = CHR ''_'')"

text \<open>The class \<open>[a-fA-F0-9]\<close> of \<open>ethRegex\<close>.\<close>

definition isHexDigit :: "char \<Rightarrow> bool" where
  "isHexDigit c =
     ((CHR ''a'' \<le> c \<and> c \<le> CHR ''f'') \<or> (CHR ''A'' \<le> c \<and> c \<le> CHR ''F'') \<or> isDigit c)"

text \<open>The class \<open>[a-z0-9-]\<close> of \<open>ensRegex\<close>, read under its \<open>i\<close> flag.\<close>

definition isNameChar :: "char \<Rightarrow> bool" where
  "isNameChar c = (isLower c \<or> isUpper c \<or> isDigit c \<or> c = CHR ''-'')"

text \<open>
  \<open>toLowerCase\<close>. The program applies it to the matches of its two patterns and to the
  addresses it exports, which are ASCII; there it changes the letters \<open>A\<close> to \<open>Z\<close> and
  nothing else.
\<close>

definition toLowerChar :: "char \<Rightarrow> char" where
  "toLowerChar c =
     (case map_of (zip ''ABCDEFGHIJKLMNOPQRSTUVWXYZ'' ''abcdefghijklmnopqrstuvwxyz'') c of
        None \<Rightarrow> c
      | Some l \<Rightarrow> l)"

definition toLowerCase :: "string \<Rightarrow> string" where
  "toLowerCase s = map toLowerChar s"

text \<open>\<open>trim\<close> removes white space at both ends; \<open>startsWith\<close> is the prefix test.\<close>

definition isWhiteSpace :: "char \<Rightarrow> bool" where
  "isWhiteSpace c = (c \<in> set [CHR 0x09, CHR 0x0A, CHR 0x0B, CHR 0x0C, CHR 0x0D, CHR 0x20, CHR 0xA0])"

definition trim :: "string \<Rightarrow> string" where
  "trim s = rev (dropWhile isWhiteSpace (rev (dropWhile isWhiteSpace s)))"

definition startsWith :: "string \<Rightarrow> string \<Rightarrow> bool" where
  "startsWith s p = (take (length p) s = p)"

text \<open>\<open>join\<close> of an array of strings.\<close>

fun join :: "string \<Rightarrow> string list \<Rightarrow> string" where
  "join sep [] = []"
| "join sep [x] = x"
| "join sep (x # y # ys) = x @ sep @ join sep (y # ys)"

text \<open>
  A number inside a template literal: its decimal digits, with the sign of a negative one.
  The numbers the program prints are counts and the ids of chats and users, integers that
  a JavaScript number holds exactly.
\<close>

definition digitChar :: "nat \<Rightarrow> char" where
  "digitChar d = ''0123456789'' ! (d mod 10)"

fun showNat :: "nat \<Rightarrow> string" where
  "showNat n = (if n < 10 then [digitChar n] else showNat (n div 10) @ [digitChar (n mod 10)])"

declare showNat.simps [simp del]

definition showInt :: "int \<Rightarrow> string" where
  "showInt i = (if i < 0 then CHR ''-'' # showNat (nat (- i)) else showNat (nat i))"

definition showBool :: "bool \<Rightarrow> string" where
  "showBool b = (if b then ''true'' else ''false'')"


section \<open>The two patterns\<close>

text \<open>
  A position of a text is the code unit before it (if any) and the rest of the text. The
  assertion \<open>\b\<close> holds where exactly one of the two neighbours is a word character.
\<close>

definition headOpt :: "string \<Rightarrow> char option" where
  "headOpt s = (case s of [] \<Rightarrow> None | c # _ \<Rightarrow> Some c)"

definition isWordAt :: "char option \<Rightarrow> bool" where
  "isWordAt oc = (case oc of None \<Rightarrow> False | Some c \<Rightarrow> isWordChar c)"

definition wordBoundary :: "char option \<Rightarrow> char option \<Rightarrow> bool" where
  "wordBoundary a b = (isWordAt a \<noteq> isWordAt b)"

subsection \<open>\<open>ethRegex = /\b0x[a-fA-F0-9]{40}\b/g\<close>\<close>

text \<open>One attempt of the pattern at a position: the matched text, or nothing.\<close>

definition ethMatchAt :: "char option \<Rightarrow> string \<Rightarrow> string option" where
  "ethMatchAt prev s =
     (if wordBoundary prev (headOpt s) \<and> take 2 s = ''0x'' \<and>
         length (take 40 (drop 2 s)) = 40 \<and> list_all isHexDigit (take 40 (drop 2 s)) \<and>
         wordBoundary (headOpt (drop 41 s)) (headOpt (drop 42 s))
      then Some (take 42 s) else None)"

text \<open>
  \<open>text.match(ethRegex) || []\<close>: with the \<open>g\<close> flag every match is returned, the search
  going on where the previous match ended, and one code unit further after a failure.
\<close>

function ethScan :: "char option \<Rightarrow> string \<Rightarrow> string list" where
  "ethScan prev [] = []"
| "ethScan prev (c # cs) =
     (case ethMatchAt prev (c # cs) of
        Some m \<Rightarrow> m # ethScan (Some (last m)) (drop 42 (c # cs))
      | None \<Rightarrow> ethScan (Some c) cs)"
  by pat_completeness auto
termination
  by (relation "measure (\<lambda>(prev, s). length s)") auto

definition ethMatches :: "string \<Rightarrow> string list" where
  "ethMatches t = ethScan None t"

subsection \<open>\<open>ensRegex = /\b[a-z0-9-]+(?:\.[a-z0-9-]+)*\.eth\b/gi\<close>\<close>

text \<open>
  The pattern backtracks, so each part returns the list of the rests of the text it can
  leave, in the order in which the matcher tries them; the first rest that lets the whole
  pattern succeed is the match. \<open>[a-z0-9-]+\<close> is greedy: the longest run first.
\<close>

fun plusName :: "string \<Rightarrow> string list" where
  "plusName [] = []"
| "plusName (c # cs) = (if isNameChar c then plusName cs @ [cs] else [])"

text \<open>One round of the group \<open>(?:\.[a-z0-9-]+)\<close>.\<close>

definition dotName :: "string \<Rightarrow> string list" where
  "dotName s = (case s of [] \<Rightarrow> [] | c # cs \<Rightarrow> if c = CHR ''.'' then plusName cs else [])"

lemma plusName_shorter: "r \<in> set (plusName s) \<Longrightarrow> length r < length s"
  by (induction s) (auto split: if_splits)

lemma dotName_shorter: "r \<in> set (dotName s) \<Longrightarrow> length r < length s"
  by (cases s) (auto simp: dotName_def dest: plusName_shorter split: if_splits)

text \<open>The group under \<open>*\<close>, greedy: one more round first, no round last.\<close>

function starDotName :: "string \<Rightarrow> string list" where
  "starDotName s = concat (map starDotName (dotName s)) @ [s]"
  by pat_completeness auto
termination
  by (relation "measure length") (auto dest: dotName_shorter)

declare starDotName.simps [simp del]

text \<open>The end of the pattern, \<open>\.eth\b\<close>, letters in either case.\<close>

definition dotEth :: "string \<Rightarrow> string list" where
  "dotEth s =
     (if toLowerCase (take 4 s) = ''.eth'' \<and> wordBoundary (headOpt (drop 3 s)) (headOpt (drop 4 s))
      then [drop 4 s] else [])"

text \<open>One attempt of the pattern at a position: the rest of the text after the match.\<close>

definition ensRestAt :: "char option \<Rightarrow> string \<Rightarrow> string option" where
  "ensRestAt prev s =
     (if wordBoundary prev (headOpt s)
      then (case concat (map (\<lambda>r1. concat (map dotEth (starDotName r1))) (plusName s)) of
              [] \<Rightarrow> None
            | r # _ \<Rightarrow> Some r)
      else None)"

lemma starDotName_shorter: "r \<in> set (starDotName s) \<Longrightarrow> length r \<le> length s"
proof (induction s arbitrary: r rule: starDotName.induct)
  case (1 s)
  from "1.prems" have "r = s \<or> (\<exists>q \<in> set (dotName s). r \<in> set (starDotName q))"
    by (subst (asm) starDotName.simps) auto
  then show ?case
  proof
    assume "r = s"
    then show ?thesis by simp
  next
    assume "\<exists>q \<in> set (dotName s). r \<in> set (starDotName q)"
    then obtain q where q: "q \<in> set (dotName s)" "r \<in> set (starDotName q)" by blast
    from "1.IH" [OF q] dotName_shorter [OF q(1)] show ?thesis by simp
  qed
qed

lemma ensRestAt_shorter: "ensRestAt prev s = Some r \<Longrightarrow> length r < length s"
proof -
  assume a: "ensRestAt prev s = Some r"
  then obtain rs where "concat (map (\<lambda>r1. concat (map dotEth (starDotName r1))) (plusName s)) = r # rs"
    by (auto simp: ensRestAt_def split: if_splits list.splits)
  then have "r \<in> set (concat (map (\<lambda>r1. concat (map dotEth (starDotName r1))) (plusName s)))"
    by (metis list.set_intros(1))
  then obtain r1 r2 where r: "r1 \<in> set (plusName s)" "r2 \<in> set (starDotName r1)" "r \<in> set (dotEth r2)"
    by auto
  from r(3) have "length r \<le> length r2"
    by (auto simp: dotEth_def split: if_splits)
  with plusName_shorter [OF r(1)] starDotName_shorter [OF r(2)] show ?thesis by simp
qed

text \<open>\<open>text.match(ensRegex) || []\<close>.\<close>

function ensScan :: "char option \<Rightarrow> string \<Rightarrow> string list" where
  "ensScan prev [] = []"
| "ensScan prev (c # cs) =
     (case ensRestAt prev (c # cs) of
        Some r \<Rightarrow>
          take (length (c # cs) - length r) (c # cs)
            # ensScan (Some (last (take (length (c # cs) - length r) (c # cs)))) r
      | None \<Rightarrow> ensScan (Some c) cs)"
  by pat_completeness auto
termination
  by (relation "measure (\<lambda>(prev, s). length s)") (auto dest: ensRestAt_shorter)

definition ensMatches :: "string \<Rightarrow> string list" where
  "ensMatches t = ensScan None t"


section \<open>The in-memory store\<close>

text \<open>
  A \<open>Set\<close> keeps its members in the order of their first insertion, and a \<open>Map\<close> its
  keys: both are lists here. \<open>add\<close> of a member changes nothing; \<open>set\<close> of a present key
  replaces its value in place.
\<close>

definition setAdd :: "string list \<Rightarrow> string \<Rightarrow> string list" where
  "setAdd xs x = (if x \<in> set xs then xs else xs @ [x])"

definition mapHas :: "(string \<times> string option) list \<Rightarrow> string \<Rightarrow> bool" where
  "mapHas m k = (k \<in> set (map fst m))"

fun mapSet :: "(string \<times> string option) list \<Rightarrow> string \<Rightarrow> string option \<Rightarrow> (string \<times> string option) list" where
  "mapSet [] k v = [(k, v)]"
| "mapSet ((k', v') # m) k v = (if k' = k then (k, v) # m else (k', v') # mapSet m k v)"

text \<open>
  \<open>chatId -> { watching, ethSet, ensMap }\<close>; a value of \<open>ensMap\<close> is a resolved address
  or \<open>null\<close> (\<open>None\<close>).
\<close>

record chatState =
  watching :: bool
  ethSet :: "string list"
  ensMap :: "(string \<times> string option) list"

text \<open>
  The state of the program: the registry \<open>memoryStore\<close>, and the calls of
  \<open>publicClient.getEnsAddress\<close>: \<open>attempts\<close> lists every call the program has made, as
  (chat, name), and \<open>inflight\<close> those that have not settled yet.
\<close>

record botState =
  memoryStore :: "int \<Rightarrow> chatState option"
  attempts :: "(int \<times> string) list"
  inflight :: "(int \<times> string) list"

definition initState :: botState where
  "initState = \<lparr>memoryStore = Map.empty, attempts = [], inflight = []\<rparr>"

text \<open>
  What the start-up fixes: the owner, whether names are resolved (\<open>useEns && publicClient\<close>),
  and the checksum function \<open>getAddress\<close> of the library, absent (\<open>null\<close>) when the library
  is; \<open>getAddress\<close> throws on an address it rejects (\<open>None\<close>).
\<close>

record config =
  ownerTelegramId :: int
  useEns :: bool
  getAddress :: "(string \<Rightarrow> string option) option"

text \<open>
  What a handler reads of its context: the chat, the sender (absent in a channel), whether
  the update is a channel post, and the transport's answer to \<open>telegram.sendMessage\<close>:
  \<open>sendFailsAt = Some k\<close> when the call number \<open>k\<close> (from 0) of the handler throws.
\<close>

record ctx =
  chat_id :: int
  chat_type :: string
  chat_title :: "string option"
  from_id :: "int option"
  channelPost :: bool
  sendFailsAt :: "nat option"

text \<open>A message the bot sends: \<open>sendMessage(chat, text)\<close>; \<open>ctx.reply\<close> sends to the chat of the update.\<close>

datatype action = SendMessage int string

definition reply :: "ctx \<Rightarrow> string \<Rightarrow> action" where
  "reply c t = SendMessage (chat_id c) t"

definition newChat :: chatState where
  "newChat = \<lparr>watching = False, ethSet = [], ensMap = []\<rparr>"

definition ensureChat :: "botState \<Rightarrow> int \<Rightarrow> botState \<times> chatState" where
  "ensureChat s chatId =
     (case memoryStore s chatId of
        None \<Rightarrow> (s\<lparr>memoryStore := (memoryStore s)(chatId \<mapsto> newChat)\<rparr>, newChat)
      | Some chat \<Rightarrow> (s, chat))"

text \<open>A handler changes the object the registry holds: the model writes it back.\<close>

definition putChat :: "botState \<Rightarrow> int \<Rightarrow> chatState \<Rightarrow> botState" where
  "putChat s chatId chat = s\<lparr>memoryStore := (memoryStore s)(chatId \<mapsto> chat)\<rparr>"

definition ownerOnly :: "config \<Rightarrow> ctx \<Rightarrow> bool" where
  "ownerOnly cfg c = (if channelPost c then True else from_id c = Some (ownerTelegramId cfg))"

definition isCmd :: "string \<Rightarrow> string \<Rightarrow> bool" where
  "isCmd t cmdName = startsWith (trim t) (CHR ''/'' # cmdName)"


section \<open>The collector\<close>

text \<open>\<open>for (const m of ethMatches) chatState.ethSet.add(m.toLowerCase())\<close>\<close>

fun addEth :: "string list \<Rightarrow> string list \<Rightarrow> string list" where
  "addEth es [] = es"
| "addEth es (m # ms) = addEth (setAdd es (toLowerCase m)) ms"

text \<open>
  The loop over the names: a name that the map does not have is stored with \<open>null\<close>, and
  its resolution starts if resolution is on. The loop returns the map and the names whose
  resolution it started.
\<close>

fun addEns :: "bool \<Rightarrow> (string \<times> string option) list \<times> string list \<Rightarrow> string list
    \<Rightarrow> (string \<times> string option) list \<times> string list" where
  "addEns ens (m, started) [] = (m, started)"
| "addEns ens (m, started) (raw # rest) =
     (if \<not> mapHas m (toLowerCase raw)
      then addEns ens (mapSet m (toLowerCase raw) None,
             if ens then started @ [toLowerCase raw] else started) rest
      else addEns ens (m, started) rest)"

definition handleText :: "config \<Rightarrow> botState \<Rightarrow> ctx \<Rightarrow> string \<Rightarrow> botState" where
  "handleText cfg s c t =
     (case ensureChat s (chat_id c) of
        (s1, chat) \<Rightarrow>
          if \<not> watching chat then s1
          else (case addEns (useEns cfg) (ensMap chat, []) (ensMatches t) of
                  (m, started) \<Rightarrow>
                    (putChat s1 (chat_id c) (chat\<lparr>ethSet := addEth (ethSet chat) (ethMatches t), ensMap := m\<rparr>))
                      \<lparr>attempts := attempts s1 @ map (Pair (chat_id c)) started,
                       inflight := inflight s1 @ map (Pair (chat_id c)) started\<rparr>))"

text \<open>
  The detached task of a name goes on when its call settles, which happens once for each
  call: \<open>if (resolved) chatState.ensMap.set(ensName, resolved)\<close>; a call that throws, or
  returns \<open>null\<close>, leaves the map as it is. A settling of a call that is not in flight
  does not happen in a run of the program; as an event it changes nothing.
\<close>

definition ensSettled :: "botState \<Rightarrow> int \<Rightarrow> string \<Rightarrow> string option \<Rightarrow> botState" where
  "ensSettled s chatId ensName resolved =
     (if (chatId, ensName) \<in> set (inflight s)
      then (case (resolved, memoryStore s chatId) of
              (Some a, Some chat) \<Rightarrow>
                if a \<noteq> []
                then (putChat s chatId (chat\<lparr>ensMap := mapSet (ensMap chat) ensName (Some a)\<rparr>))
                       \<lparr>inflight := remove1 (chatId, ensName) (inflight s)\<rparr>
                else s\<lparr>inflight := remove1 (chatId, ensName) (inflight s)\<rparr>
            | _ \<Rightarrow> s\<lparr>inflight := remove1 (chatId, ensName) (inflight s)\<rparr>)
      else s)"

text \<open>The bot joins a chat: \<open>bot.on('my_chat_member', ...)\<close>.\<close>

definition handleMyChatMember :: "botState \<Rightarrow> ctx \<Rightarrow> string option \<Rightarrow> string option \<Rightarrow> botState" where
  "handleMyChatMember s c oldStatus newStatus =
     (if oldStatus \<in> set [Some ''left'', Some ''kicked''] \<and>
         newStatus \<in> set [Some ''member'', Some ''administrator'', Some ''creator''] \<and>
         chat_type c \<in> set [''channel'', ''group'', ''supergroup'']
      then (case ensureChat s (chat_id c) of (s1, chat) \<Rightarrow> putChat s1 (chat_id c) (chat\<lparr>watching := True\<rparr>))
      else s)"


section \<open>The commands\<close>

definition newline :: string where
  "newline = [CHR 0x0A]"

text \<open>
  The pictographs of the source's texts, one \<^typ>\<open>char\<close> for each code unit the source file
  holds, written as the bytes they stand for. The program only counts them.
\<close>

definition memoIcon :: string where
  "memoIcon = [CHR 0xF0, CHR 0x9F, CHR 0x93]"

definition robotIcon :: string where
  "robotIcon = [CHR 0xF0, CHR 0x9F, CHR 0xA4, CHR 0x96]"

definition clipboardIcon :: string where
  "clipboardIcon = [CHR 0xF0, CHR 0x9F, CHR 0x93, CHR 0x8B]"

definition helpMessage :: string where
  "helpMessage =
     memoIcon @ '' Available Commands:'' @ newline @ newline
     @ ''/help - Show this help message'' @ newline
     @ ''/whoami - Show your Telegram ID'' @ newline
     @ ''/status - Show collection statistics'' @ newline
     @ ''/makelist - Send collected addresses to DM'' @ newline @ newline
     @ robotIcon @ '' This bot automatically collects ETH addresses and ENS names from all posts.''"

definition handleHelp :: "ctx \<Rightarrow> action list" where
  "handleHelp c = [reply c helpMessage]"

definition handleWhoami :: "ctx \<Rightarrow> action list" where
  "handleWhoami c =
     [reply c (''Your Telegram ID: '' @
        (case from_id c of None \<Rightarrow> ''Channel Post (no user ID)'' | Some i \<Rightarrow> showInt i))]"

definition handleStatus :: "config \<Rightarrow> botState \<Rightarrow> ctx \<Rightarrow> botState \<times> action list" where
  "handleStatus cfg s c =
     (if \<not> ownerOnly cfg c then (s, [])
      else (case ensureChat s (chat_id c) of
              (s1, chat) \<Rightarrow>
                (s1, [reply c (''Watched: '' @ showBool (watching chat) @ newline
                        @ ''Collected: '' @ showNat (length (ethSet chat) + length (ensMap chat))
                        @ '' (ETH: '' @ showNat (length (ethSet chat))
                        @ '', ENS: '' @ showNat (length (ensMap chat)) @ '')'')])))"

subsection \<open>\<open>handleMakeList\<close>\<close>

text \<open>
  The result set \<open>addressSet\<close>: the collected addresses, then the value of every name
  whose value is truthy (neither \<open>null\<close> nor the empty string), all in lower case.
\<close>

fun addCollected :: "string list \<Rightarrow> string list \<Rightarrow> string list" where
  "addCollected acc [] = acc"
| "addCollected acc (addr # rest) = addCollected (setAdd acc (toLowerCase addr)) rest"

fun addResolved :: "string list \<Rightarrow> (string \<times> string option) list \<Rightarrow> string list" where
  "addResolved acc [] = acc"
| "addResolved acc ((name, maybeResolved) # rest) =
     (case maybeResolved of
        None \<Rightarrow> addResolved acc rest
      | Some a \<Rightarrow> if a \<noteq> [] then addResolved (setAdd acc (toLowerCase a)) rest
                  else addResolved acc rest)"

definition addressSet :: "chatState \<Rightarrow> string list" where
  "addressSet chat = addResolved (addCollected [] (ethSet chat)) (ensMap chat)"

text \<open>The checksum of each address, or the address itself where \<open>getAddress\<close> throws.\<close>

definition checksumAll :: "config \<Rightarrow> string list \<Rightarrow> string list" where
  "checksumAll cfg addresses =
     (case getAddress cfg of
        None \<Rightarrow> addresses
      | Some g \<Rightarrow> map (\<lambda>addr. case g addr of Some a \<Rightarrow> a | None \<Rightarrow> addr) addresses)"

text \<open>
  \<open>addresses.sort((a, b) => a.toLowerCase().localeCompare(b.toLowerCase()))\<close>: the sort
  is stable, and on the lower-case hexadecimal strings it compares, \<open>localeCompare\<close> is
  the order of the code units (digits before letters, letters in the order of the alphabet).
\<close>

definition sortAddresses :: "string list \<Rightarrow> string list" where
  "sortAddresses addresses = sort_key toLowerCase addresses"

definition exportAddresses :: "config \<Rightarrow> chatState \<Rightarrow> string list" where
  "exportAddresses cfg chat = sortAddresses (checksumAll cfg (addressSet chat))"

definition chatName :: "ctx \<Rightarrow> string" where
  "chatName c =
     (case chat_title c of
        None \<Rightarrow> ''Chat '' @ showInt (chat_id c)
      | Some t \<Rightarrow> if t \<noteq> [] then t else ''Chat '' @ showInt (chat_id c))"

definition header :: "ctx \<Rightarrow> nat \<Rightarrow> nat \<Rightarrow> nat \<Rightarrow> string" where
  "header c ethCount ensResolvedCount n =
     clipboardIcon @ '' Collected Addresses from '' @ chatName c @ newline
     @ ''('' @ showNat ethCount @ '' ETH + '' @ showNat ensResolvedCount
     @ '' resolved ENS = '' @ showNat n @ '' unique)'' @ newline @ newline"

definition maxLength :: nat where
  "maxLength = 4096"

text \<open>The loop that fills the chunks: it returns \<open>chunks\<close> and \<open>currentChunk\<close>.\<close>

fun chunkLoop :: "string list \<Rightarrow> string \<Rightarrow> string list \<Rightarrow> string list \<times> string" where
  "chunkLoop chunks currentChunk [] = (chunks, currentChunk)"
| "chunkLoop chunks currentChunk (addr # rest) =
     (if length (currentChunk @ addr @ newline) > maxLength
      then chunkLoop (chunks @ [currentChunk]) (addr @ newline) rest
      else chunkLoop chunks (currentChunk @ addr @ newline) rest)"

definition makeChunks :: "string \<Rightarrow> string list \<Rightarrow> string list" where
  "makeChunks hdr addresses =
     (case chunkLoop [] hdr addresses of
        (chunks, currentChunk) \<Rightarrow> if currentChunk \<noteq> [] then chunks @ [currentChunk] else chunks)"

text \<open>The text of part \<open>i\<close> (from 0) of \<open>n\<close>: \<open>Part ${i + 1}/${chunks.length}:\n\n${chunks[i]}\<close>.\<close>

definition partText :: "nat \<Rightarrow> nat \<Rightarrow> string \<Rightarrow> string" where
  "partText i n chunk =
     ''Part '' @ showNat (i + 1) @ ''/'' @ showNat n @ '':'' @ newline @ newline @ chunk"

text \<open>The texts that \<open>handleMakeList\<close> sends to the owner, in order.\<close>

definition blocks :: "string \<Rightarrow> string list \<Rightarrow> string list" where
  "blocks hdr addresses =
     (if length (hdr @ join newline addresses) \<le> maxLength
      then [hdr @ join newline addresses]
      else map (\<lambda>(i, chunk). partText i (length (makeChunks hdr addresses)) chunk)
             (zip [0..<length (makeChunks hdr addresses)] (makeChunks hdr addresses)))"

text \<open>
  The calls of \<open>telegram.sendMessage\<close> inside the \<open>try\<close>: they stop at the call that throws.
  The result says whether all were made. A call of \<open>ctx.reply\<close> is taken to succeed.
\<close>

definition sendAll :: "ctx \<Rightarrow> int \<Rightarrow> string list \<Rightarrow> action list \<times> bool" where
  "sendAll c owner bs =
     (case sendFailsAt c of
        None \<Rightarrow> (map (SendMessage owner) bs, True)
      | Some k \<Rightarrow> if k < length bs then (map (SendMessage owner) (take k bs), False)
                  else (map (SendMessage owner) bs, True))"

definition handleMakeList :: "config \<Rightarrow> botState \<Rightarrow> ctx \<Rightarrow> botState \<times> action list" where
  "handleMakeList cfg s c =
     (if \<not> ownerOnly cfg c then (s, [])
      else (case ensureChat s (chat_id c) of
              (s1, chat) \<Rightarrow>
                if length (exportAddresses cfg chat) = 0
                then (s1, [reply c ''No addresses collected yet.''])
                else (case sendAll c (ownerTelegramId cfg)
                             (blocks (header c (length (ethSet chat))
                                        (length (filter (\<lambda>v. v \<noteq> None) (map snd (ensMap chat))))
                                        (length (exportAddresses cfg chat)))
                                (exportAddresses cfg chat)) of
                        (sent, ok) \<Rightarrow>
                          (s1, sent @ [reply c (if ok then ''Sent you a DM with the results.''
                                 else ''Failed to DM results. (Is the bot allowed to message you? Send /start to the bot in DM once.)'')]))))"


section \<open>The updates\<close>

text \<open>
  The handler an update with a text is given to. A channel post goes through the prefix
  tests of \<open>isCmd\<close>, in the order of the source. A message goes through the commands
  registered with \<open>bot.command\<close>, which run for a message whose command (the name after
  the \<open>/\<close> of the command that opens the message, as the library reads it from the
  message) is the registered one; the collector, registered last, gets the other texts.
\<close>

datatype route = RHelp | RWhoami | RStatus | RMakeList | RCollect

definition channelRoute :: "string \<Rightarrow> route" where
  "channelRoute t =
     (if isCmd t ''help'' then RHelp
      else if isCmd t ''whoami'' then RWhoami
      else if isCmd t ''status'' then RStatus
      else if isCmd t ''makelist'' then RMakeList
      else RCollect)"

definition messageRoute :: "string option \<Rightarrow> route" where
  "messageRoute command =
     (if command = Some ''help'' then RHelp
      else if command = Some ''whoami'' then RWhoami
      else if command = Some ''status'' then RStatus
      else if command = Some ''makelist'' then RMakeList
      else RCollect)"

definition runRoute :: "config \<Rightarrow> botState \<Rightarrow> ctx \<Rightarrow> string \<Rightarrow> route \<Rightarrow> botState \<times> action list" where
  "runRoute cfg s c t r =
     (case r of
        RHelp \<Rightarrow> (s, handleHelp c)
      | RWhoami \<Rightarrow> (s, handleWhoami c)
      | RStatus \<Rightarrow> handleStatus cfg s c
      | RMakeList \<Rightarrow> handleMakeList cfg s c
      | RCollect \<Rightarrow> (handleText cfg s c t, []))"

text \<open>
  The events of a run: the bot's change of membership in a chat, with the old and the new
  status; a message, with its text and the name of the command that opens it, if any; a
  channel post, with its text, if any; and the settling of a call of the resolver, with
  the chat, the name and the answer. A handler of a text returns at once when the text is
  missing or empty.
\<close>

datatype event =
    MyChatMember ctx "string option" "string option"
  | TextMessage ctx string "string option"
  | ChannelPost ctx "string option"
  | EnsSettled int string "string option"

fun step :: "config \<Rightarrow> botState \<Rightarrow> event \<Rightarrow> botState \<times> action list" where
  "step cfg s (MyChatMember c oldStatus newStatus) = (handleMyChatMember s c oldStatus newStatus, [])"
| "step cfg s (TextMessage c t command) =
     (if t = [] then (s, [])
      else runRoute cfg s (c\<lparr>channelPost := False\<rparr>) t (messageRoute command))"
| "step cfg s (ChannelPost c None) = (s, [])"
| "step cfg s (ChannelPost c (Some t)) =
     (if t = [] then (s, [])
      else runRoute cfg s (c\<lparr>channelPost := True\<rparr>) t (channelRoute t))"
| "step cfg s (EnsSettled chatId ensName resolved) = (ensSettled s chatId ensName resolved, [])"

fun run :: "config \<Rightarrow> botState \<Rightarrow> event list \<Rightarrow> botState" where
  "run cfg s [] = s"
| "run cfg s (e # es) = run cfg (fst (step cfg s e)) es"


section \<open>Views of the state\<close>

text \<open>
  What a chat has collected: its addresses and its names with their values; nothing for a
  chat the registry does not have.
\<close>

definition collected :: "botState \<Rightarrow> int \<Rightarrow> string list \<times> (string \<times> string option) list" where
  "collected s chatId =
     (case memoryStore s chatId of None \<Rightarrow> ([], []) | Some chat \<Rightarrow> (ethSet chat, ensMap chat))"

text \<open>The value stored for a name of a chat: \<open>None\<close> when the chat's map does not have the name.\<close>

definition nameValue :: "botState \<Rightarrow> int \<Rightarrow> string \<Rightarrow> string option option" where
  "nameValue s chatId name = map_of (snd (collected s chatId)) name"

text \<open>
  What holds of the store throughout a run: no call of the resolver is made twice, the calls
  not yet settled are among the calls made, a name whose resolution was started is in
  the map, with \<open>null\<close> while the call has not settled, and no stored value is the empty
  string.
\<close>

definition storeInv :: "botState \<Rightarrow> bool" where
  "storeInv s =
     (distinct (attempts s) \<and> distinct (inflight s) \<and> set (inflight s) \<subseteq> set (attempts s) \<and>
      (\<forall>c n. (c, n) \<in> set (attempts s) \<longrightarrow> nameValue s c n \<noteq> None) \<and>
      (\<forall>c n. (c, n) \<in> set (inflight s) \<longrightarrow> nameValue s c n = Some None) \<and>
      (\<forall>c n. (n, Some []) \<notin> set (snd (collected s c))))"

text \<open>From one state to a later one: a name stays, and so does a value that is not \<open>null\<close>.\<close>

definition grows :: "botState \<Rightarrow> botState \<Rightarrow> bool" where
  "grows s s' =
     (\<forall>c n v. nameValue s c n = Some v \<longrightarrow>
        (\<exists>v'. nameValue s' c n = Some v' \<and> (v \<noteq> None \<longrightarrow> v' = v)))"


section \<open>Sample inputs\<close>

text \<open>A start-up with resolution on and no checksum library, a group and a channel.\<close>

definition cfg0 :: config where
  "cfg0 = \<lparr>ownerTelegramId = 42, useEns = True, getAddress = None\<rparr>"

definition groupCtx :: ctx where
  "groupCtx = \<lparr>chat_id = - 1001, chat_type = ''supergroup'', chat_title = Some ''Airdrop Signup Channel'',
     from_id = Some 42, channelPost = False, sendFailsAt = None\<rparr>"

definition channelCtx :: ctx where
  "channelCtx = \<lparr>chat_id = - 1002, chat_type = ''channel'', chat_title = Some ''Announcements'',
     from_id = None, channelPost = True, sendFailsAt = None\<rparr>"

definition watchedState :: botState where
  "watchedState =
     \<lparr>memoryStore = Map.empty(- 1002 \<mapsto> \<lparr>watching = True, ethSet = [], ensMap = []\<rparr>),
      attempts = [], inflight = []\<rparr>"


text \<open>
  A run: the bot joins a group, a message brings a name and an address, and the name
  resolves to that address; and what may come later: the name again, and a second
  answer for it.
\<close>

definition sampleRun :: "event list" where
  "sampleRun =
     [MyChatMember groupCtx (Some ''left'') (Some ''member''),
      TextMessage groupCtx ''gm vitalik.eth 0x52908400098527886E0F7030069857D2E4169EE7'' None,
      EnsSettled (- 1001) ''vitalik.eth'' (Some ''0x52908400098527886E0F7030069857D2E4169EE7'')]"

definition sampleLater :: "event list" where
  "sampleLater =
     [TextMessage groupCtx ''again Vitalik.eth'' None,
      EnsSettled (- 1001) ''vitalik.eth'' (Some ''0xde709f2102306220921060314715629080e2fb77'')]"

definition sampleChat :: chatState where
  "sampleChat =
     \<lparr>watching = True,
      ethSet = [''0x52908400098527886e0f7030069857d2e4169ee7''],
      ensMap = [(''vitalik.eth'', Some ''0x52908400098527886E0F7030069857D2E4169EE7'')]\<rparr>"

definition sampleText :: string where
  "sampleText = ''/status of vitalik.eth 0x52908400098527886E0F7030069857D2E4169EE7''"


section \<open>The address pattern in the words of the specification\<close>

text \<open>
  Position \<open>i\<close> of a text holds a word character; and, following the specification,
  position \<open>i\<close> starts an address: \<open>0x\<close>, then 40 hexadecimal digits, with a word boundary
  before and after, that is, no word character on either side. \<open>specEthMatches\<close> lists
  the addresses of a text by their positions.
\<close>

definition wordAt :: "string \<Rightarrow> nat \<Rightarrow> bool" where
  "wordAt t i = (i < length t \<and> isWordChar (t ! i))"

definition specEthAt :: "string \<Rightarrow> nat \<Rightarrow> bool" where
  "specEthAt t i =
     (i + 42 \<le> length t \<and> take 2 (drop i t) = ''0x'' \<and>
      list_all isHexDigit (take 40 (drop (i + 2) t)) \<and>
      \<not> (0 < i \<and> wordAt t (i - 1)) \<and> \<not> wordAt t (i + 42))"

definition specEthMatches :: "string \<Rightarrow> string list" where
  "specEthMatches t = map (\<lambda>i. take 42 (drop i t)) (filter (specEthAt t) [0..<length t])"

text \<open>The code unit before position \<open>k\<close>.\<close>

definition prevOf :: "string \<Rightarrow> nat \<Rightarrow> char option" where
  "prevOf t k = (if k = 0 then None else Some (t ! (k - 1)))"


section \<open>More sample inputs\<close>

text \<open>Reading a decimal number back, to tell the outputs of \<open>showNat\<close> apart.\<close>

definition digitVal :: "char \<Rightarrow> nat" where
  "digitVal c = (case map_of (zip ''0123456789'' [0, 1, 2, 3, 4, 5, 6, 7, 8, 9]) c of None \<Rightarrow> 0 | Some d \<Rightarrow> d)"

definition readNat :: "string \<Rightarrow> nat" where
  "readNat s = foldl (\<lambda>acc c. 10 * acc + digitVal c) 0 s"

text \<open>
  A chat that has collected 94 addresses, \<open>0x100\<close> to \<open>0x193\<close> followed by 37 zeros,
  and nothing else.
\<close>

definition manyAddresses :: "string list" where
  "manyAddresses = map (\<lambda>i. ''0x'' @ showNat i @ replicate 37 (CHR ''0'')) [100..<194]"

definition bigChat :: chatState where
  "bigChat = \<lparr>watching = True, ethSet = manyAddresses, ensMap = []\<rparr>"

definition bigState :: botState where
  "bigState = \<lparr>memoryStore = Map.empty(- 1001 \<mapsto> bigChat), attempts = [], inflight = []\<rparr>"






section \<open>Lemmas on the export and the handlers\<close>

lemma length_sortAddresses: "length (sortAddresses xs) = length xs"
  by (simp add: sortAddresses_def)

lemma length_checksumAll: "length (checksumAll cfg xs) = length xs"
  by (simp add: checksumAll_def split: option.splits)

lemma collected_ensureChat: "collected (fst (ensureChat s i)) j = collected s j"
  by (simp add: collected_def ensureChat_def newChat_def split: option.splits)

lemma attempts_ensureChat:
  "attempts (fst (ensureChat s i)) = attempts s" "inflight (fst (ensureChat s i)) = inflight s"
  by (simp_all add: ensureChat_def split: option.splits)

lemma fst_handleStatus:
  "fst (handleStatus cfg s c) = (if ownerOnly cfg c then fst (ensureChat s (chat_id c)) else s)"
  by (simp add: handleStatus_def split: prod.splits)

lemma fst_handleMakeList:
  "fst (handleMakeList cfg s c) = (if ownerOnly cfg c then fst (ensureChat s (chat_id c)) else s)"
  by (simp add: handleMakeList_def split: prod.splits)

lemma handleStatus_frame:
  "collected (fst (handleStatus cfg s c)) j = collected s j \<and>
   attempts (fst (handleStatus cfg s c)) = attempts s \<and>
   inflight (fst (handleStatus cfg s c)) = inflight s"
  by (simp add: fst_handleStatus collected_ensureChat attempts_ensureChat)

lemma handleMakeList_frame:
  "collected (fst (handleMakeList cfg s c)) j = collected s j \<and>
   attempts (fst (handleMakeList cfg s c)) = attempts s \<and>
   inflight (fst (handleMakeList cfg s c)) = inflight s"
  by (simp add: fst_handleMakeList collected_ensureChat attempts_ensureChat)

lemma isCmd_nonempty: "isCmd t n \<Longrightarrow> t \<noteq> []"
  by (auto simp: isCmd_def startsWith_def trim_def)

lemma set_addEth: "set (addEth es ms) = set es \<union> toLowerCase ` set ms"
  by (induction ms arbitrary: es) (auto simp: setAdd_def)

lemma addEth_members: "toLowerCase ` set ms \<subseteq> set es \<Longrightarrow> addEth es ms = es"
  by (induction ms arbitrary: es) (auto simp: setAdd_def)

lemma addEth_twice: "addEth (addEth es ms) ms = addEth es ms"
  by (rule addEth_members) (simp add: set_addEth)

lemma mapHas_mapSet: "mapHas (mapSet m k v) k' = (k' = k \<or> mapHas m k')"
  by (induction m k v rule: mapSet.induct) (auto simp: mapHas_def)

lemma addEns_keys:
  "addEns ens (m, st) ns = (m', st') \<Longrightarrow> mapHas m' k = (mapHas m k \<or> k \<in> toLowerCase ` set ns)"
proof (induction ns arbitrary: m st)
  case Nil
  then show ?case by simp
next
  case (Cons n ns)
  show ?case
  proof (cases "mapHas m (toLowerCase n)")
    case True
    with Cons.prems have "addEns ens (m, st) ns = (m', st')" by simp
    from Cons.IH [OF this] True show ?thesis by auto
  next
    case False
    with Cons.prems have "addEns ens (mapSet m (toLowerCase n) None,
         if ens then st @ [toLowerCase n] else st) ns = (m', st')" by simp
    from Cons.IH [OF this] show ?thesis by (auto simp: mapHas_mapSet)
  qed
qed

lemma addEns_members:
  "list_all (\<lambda>n. mapHas m (toLowerCase n)) ns \<Longrightarrow> addEns ens (m, st) ns = (m, st)"
  by (induction ns) auto

lemma addEns_twice:
  assumes "addEns ens (m, st) ns = (m', st')"
  shows "addEns ens (m', st2) ns = (m', st2)"
proof (rule addEns_members)
  show "list_all (\<lambda>n. mapHas m' (toLowerCase n)) ns"
    using addEns_keys [OF assms] by (simp add: list_all_iff)
qed

lemma set_addCollected: "set (addCollected acc xs) = set acc \<union> toLowerCase ` set xs"
  by (induction xs arbitrary: acc) (auto simp: setAdd_def)

lemma distinct_addCollected: "distinct acc \<Longrightarrow> distinct (addCollected acc xs)"
  by (induction xs arbitrary: acc) (auto simp: setAdd_def)

lemma set_addResolved:
  "set (addResolved acc es) = set acc \<union> toLowerCase ` {a. a \<noteq> [] \<and> (\<exists>name. (name, Some a) \<in> set es)}"
proof (induction acc es rule: addResolved.induct)
  case (1 acc)
  then show ?case by simp
next
  case (2 acc name maybeResolved rest)
  then show ?case
    by (cases maybeResolved) (auto simp: setAdd_def)
qed

lemma distinct_addResolved: "distinct acc \<Longrightarrow> distinct (addResolved acc es)"
  by (induction acc es rule: addResolved.induct) (auto simp: setAdd_def split: option.splits)


section \<open>The invariant of the store\<close>

lemma grows_refl: "grows s s"
  by (simp add: grows_def)

lemma grows_trans: "grows s1 s2 \<Longrightarrow> grows s2 s3 \<Longrightarrow> grows s1 s3"
  unfolding grows_def by (metis option.distinct(1))

lemma frame_step:
  assumes "\<And>c. collected s' c = collected s c" "attempts s' = attempts s" "inflight s' = inflight s"
    and "storeInv s"
  shows "storeInv s' \<and> grows s s'"
  using assms by (simp add: storeInv_def grows_def nameValue_def)

lemma map_of_mapSet: "map_of (mapSet m k v) = (map_of m)(k \<mapsto> v)"
  by (induction m k v rule: mapSet.induct) auto

lemma set_mapSet: "set (mapSet m k v) \<subseteq> insert (k, v) (set m)"
  by (induction m k v rule: mapSet.induct) auto

lemma mapHas_map_of: "mapHas m k = (map_of m k \<noteq> None)"
  by (simp add: mapHas_def map_of_eq_None_iff)

lemma addEns_map_of:
  "addEns ens (m, st) ns = (m', st') \<Longrightarrow>
   map_of m' k = (case map_of m k of Some v \<Rightarrow> Some v
                  | None \<Rightarrow> if k \<in> toLowerCase ` set ns then Some None else None)"
proof (induction ns arbitrary: m st)
  case Nil
  then show ?case by (simp split: option.splits)
next
  case (Cons n ns)
  show ?case
  proof (cases "mapHas m (toLowerCase n)")
    case True
    with Cons.prems have "addEns ens (m, st) ns = (m', st')" by simp
    from Cons.IH [OF this] True show ?thesis
      by (auto simp: mapHas_map_of split: option.splits)
  next
    case False
    with Cons.prems have "addEns ens (mapSet m (toLowerCase n) None,
         if ens then st @ [toLowerCase n] else st) ns = (m', st')" by simp
    from Cons.IH [OF this] False show ?thesis
      by (auto simp: mapHas_map_of map_of_mapSet split: option.splits if_splits)
  qed
qed

lemma addEns_set:
  "addEns ens (m, st) ns = (m', st') \<Longrightarrow> (k, Some a) \<in> set m' \<Longrightarrow> (k, Some a) \<in> set m"
proof (induction ns arbitrary: m st)
  case Nil
  then show ?case by simp
next
  case (Cons n ns)
  show ?case
  proof (cases "mapHas m (toLowerCase n)")
    case True
    with Cons.prems have "addEns ens (m, st) ns = (m', st')" by simp
    from Cons.IH [OF this Cons.prems(2)] show ?thesis .
  next
    case False
    with Cons.prems have "addEns ens (mapSet m (toLowerCase n) None,
         if ens then st @ [toLowerCase n] else st) ns = (m', st')" by simp
    from Cons.IH [OF this Cons.prems(2)] set_mapSet [of m "toLowerCase n" None]
    show ?thesis by auto
  qed
qed

lemma addEns_started:
  "addEns ens (m, st) ns = (m', st') \<Longrightarrow>
   \<exists>new. st' = st @ new \<and> distinct new \<and>
     (\<forall>n \<in> set new. map_of m n = None \<and> map_of m' n = Some None)"
proof (induction ns arbitrary: m st)
  case Nil
  then show ?case by simp
next
  case (Cons n ns)
  show ?case
  proof (cases "mapHas m (toLowerCase n)")
    case True
    with Cons.prems have "addEns ens (m, st) ns = (m', st')" by simp
    from Cons.IH [OF this] show ?thesis .
  next
    case False
    let ?k = "toLowerCase n"
    from False Cons.prems have tl: "addEns ens (mapSet m ?k None,
         if ens then st @ [?k] else st) ns = (m', st')" by simp
    from Cons.IH [OF tl] obtain new where new:
      "st' = (if ens then st @ [?k] else st) @ new" "distinct new"
      "\<forall>n \<in> set new. map_of (mapSet m ?k None) n = None \<and> map_of m' n = Some None"
      by blast
    from new(3) have a: "?k \<notin> set new"
      and b: "\<forall>n \<in> set new. map_of m n = None \<and> map_of m' n = Some None"
      by (auto simp: map_of_mapSet split: if_splits)
    have k: "map_of m' ?k = Some None"
      using addEns_map_of [OF tl, of ?k] by (simp add: map_of_mapSet)
    show ?thesis
    proof (cases ens)
      case True
      with new a b k False have "st' = st @ (?k # new) \<and> distinct (?k # new) \<and>
          (\<forall>n \<in> set (?k # new). map_of m n = None \<and> map_of m' n = Some None)"
        by (simp add: mapHas_map_of)
      then show ?thesis by blast
    next
      case False
      with new b show ?thesis by auto
    qed
  qed
qed

lemma collected_putChat:
  "collected (putChat s i chat) = (collected s)(i := (ethSet chat, ensMap chat))"
  by (rule ext) (simp add: collected_def putChat_def)

lemma collected_upd:
  "collected (s\<lparr>attempts := a\<rparr>) = collected s" "collected (s\<lparr>inflight := b\<rparr>) = collected s"
  by (simp_all add: collected_def fun_eq_iff)

lemma attempts_putChat:
  "attempts (putChat s i chat) = attempts s" "inflight (putChat s i chat) = inflight s"
  by (simp_all add: putChat_def)

lemma ensureChat_cases:
  assumes "ensureChat s i = (s1, chat)"
  shows "memoryStore s1 i = Some chat" "collected s1 = collected s"
    "collected s i = (ethSet chat, ensMap chat)"
    "attempts s1 = attempts s" "inflight s1 = inflight s"
proof -
  show "memoryStore s1 i = Some chat" "attempts s1 = attempts s" "inflight s1 = inflight s"
    using assms by (auto simp: ensureChat_def split: option.splits)
  show "collected s i = (ethSet chat, ensMap chat)"
    using assms by (auto simp: ensureChat_def collected_def newChat_def split: option.splits)
  have "collected s1 j = collected s j" for j
    using assms collected_ensureChat [of s i j] by simp
  then show "collected s1 = collected s" by (simp add: fun_eq_iff)
qed

lemma handleMyChatMember_frame:
  assumes "storeInv s"
  shows "storeInv (handleMyChatMember s c old new) \<and> grows s (handleMyChatMember s c old new)"
proof (rule frame_step [OF _ _ _ assms])
  fix j
  show "collected (handleMyChatMember s c old new) j = collected s j"
    by (cases "ensureChat s (chat_id c)")
      (auto simp: handleMyChatMember_def collected_putChat dest: ensureChat_cases)
next
  show "attempts (handleMyChatMember s c old new) = attempts s"
    by (cases "ensureChat s (chat_id c)")
      (auto simp: handleMyChatMember_def attempts_putChat dest: ensureChat_cases)
next
  show "inflight (handleMyChatMember s c old new) = inflight s"
    by (cases "ensureChat s (chat_id c)")
      (auto simp: handleMyChatMember_def attempts_putChat dest: ensureChat_cases)
qed

lemma handleText_effect:
  "(collected (handleText cfg s c t) = collected s \<and>
    attempts (handleText cfg s c t) = attempts s \<and>
    inflight (handleText cfg s c t) = inflight s) \<or>
   (\<exists>m st es. addEns (useEns cfg) (snd (collected s (chat_id c)), []) (ensMatches t) = (m, st) \<and>
      collected (handleText cfg s c t) = (collected s)(chat_id c := (es, m)) \<and>
      attempts (handleText cfg s c t) = attempts s @ map (Pair (chat_id c)) st \<and>
      inflight (handleText cfg s c t) = inflight s @ map (Pair (chat_id c)) st)"
proof (cases "ensureChat s (chat_id c)")
  case (Pair s1 chat)
  note e = ensureChat_cases [OF Pair]
  show ?thesis
  proof (cases "watching chat")
    case False
    with Pair e show ?thesis by (simp add: handleText_def)
  next
    case True
    obtain m st where a: "addEns (useEns cfg) (ensMap chat, []) (ensMatches t) = (m, st)"
      by (cases "addEns (useEns cfg) (ensMap chat, []) (ensMatches t)")
    with Pair True e have "addEns (useEns cfg) (snd (collected s (chat_id c)), []) (ensMatches t) = (m, st) \<and>
      collected (handleText cfg s c t) = (collected s)(chat_id c := (addEth (ethSet chat) (ethMatches t), m)) \<and>
      attempts (handleText cfg s c t) = attempts s @ map (Pair (chat_id c)) st \<and>
      inflight (handleText cfg s c t) = inflight s @ map (Pair (chat_id c)) st"
      by (simp add: handleText_def collected_putChat collected_upd attempts_putChat)
    then show ?thesis by blast
  qed
qed

lemma handleText_inv:
  assumes inv: "storeInv s"
  shows "storeInv (handleText cfg s c t) \<and> grows s (handleText cfg s c t)"
proof -
  let ?s' = "handleText cfg s c t"
  let ?i = "chat_id c"
  from handleText_effect [of cfg s c t] show ?thesis
  proof
    assume "collected ?s' = collected s \<and> attempts ?s' = attempts s \<and> inflight ?s' = inflight s"
    then show ?thesis by (intro frame_step [OF _ _ _ inv]) simp_all
  next
    assume "\<exists>m st es. addEns (useEns cfg) (snd (collected s ?i), []) (ensMatches t) = (m, st) \<and>
      collected ?s' = (collected s)(?i := (es, m)) \<and>
      attempts ?s' = attempts s @ map (Pair ?i) st \<and>
      inflight ?s' = inflight s @ map (Pair ?i) st"
    then obtain m st es where
      a: "addEns (useEns cfg) (snd (collected s ?i), []) (ensMatches t) = (m, st)" and
      col: "collected ?s' = (collected s)(?i := (es, m))" and
      att: "attempts ?s' = attempts s @ map (Pair ?i) st" and
      inf: "inflight ?s' = inflight s @ map (Pair ?i) st"
      by blast
    from addEns_started [OF a] have st: "distinct st"
      "\<forall>n \<in> set st. nameValue s ?i n = None \<and> map_of m n = Some None"
      by (auto simp: nameValue_def)
    have keep: "nameValue ?s' k n = Some v" if "nameValue s k n = Some v" for k n v
      using that addEns_map_of [OF a, of n] by (auto simp: nameValue_def col)
    have nv: "nameValue ?s' ?i n = Some None" if "n \<in> set st" for n
      using that st(2) by (simp add: nameValue_def col)
    have fresh: "(?i, n) \<notin> set (attempts s)" if "n \<in> set st" for n
    proof
      assume "(?i, n) \<in> set (attempts s)"
      with inv have "nameValue s ?i n \<noteq> None" by (simp add: storeInv_def)
      with st(2) that show False by simp
    qed
    have d1: "distinct (attempts ?s')"
      using inv st(1) fresh by (auto simp: att storeInv_def distinct_map inj_on_def)
    have d2: "distinct (inflight ?s')"
      using inv st(1) fresh by (auto simp: inf storeInv_def distinct_map inj_on_def)
    have sub: "set (inflight ?s') \<subseteq> set (attempts ?s')"
      using inv by (auto simp: inf att storeInv_def)
    have i3: "nameValue ?s' k n \<noteq> None" if "(k, n) \<in> set (attempts ?s')" for k n
    proof (cases "(k, n) \<in> set (attempts s)")
      case True
      with inv have "nameValue s k n \<noteq> None" by (simp add: storeInv_def)
      then obtain v where "nameValue s k n = Some v" by (cases "nameValue s k n") auto
      from keep [OF this] show ?thesis by simp
    next
      case False
      with that have "k = ?i" "n \<in> set st" by (auto simp: att)
      with nv show ?thesis by simp
    qed
    have i4: "nameValue ?s' k n = Some None" if "(k, n) \<in> set (inflight ?s')" for k n
    proof (cases "(k, n) \<in> set (inflight s)")
      case True
      with inv have "nameValue s k n = Some None" by (auto simp: storeInv_def)
      from keep [OF this] show ?thesis .
    next
      case False
      with that have "k = ?i" "n \<in> set st" by (auto simp: inf)
      with nv show ?thesis by simp
    qed
    have i5: "(n, Some []) \<notin> set (snd (collected ?s' k))" for k n
      using inv addEns_set [OF a, of n "[]"] by (auto simp: col storeInv_def)
    have "storeInv ?s'"
      unfolding storeInv_def using d1 d2 sub i3 i4 i5 by blast
    moreover have "grows s ?s'"
      unfolding grows_def using keep by blast
    ultimately show ?thesis ..
  qed
qed

lemma ensSettled_effect:
  "ensSettled s i n r = s \<and> (i, n) \<notin> set (inflight s) \<or>
   (i, n) \<in> set (inflight s) \<and>
   attempts (ensSettled s i n r) = attempts s \<and>
   inflight (ensSettled s i n r) = remove1 (i, n) (inflight s) \<and>
   (collected (ensSettled s i n r) = collected s \<or>
    (\<exists>a. a \<noteq> [] \<and>
       collected (ensSettled s i n r) =
         (collected s)(i := (fst (collected s i), mapSet (snd (collected s i)) n (Some a)))))"
proof (cases "(i, n) \<in> set (inflight s)")
  case False
  then show ?thesis by (simp add: ensSettled_def)
next
  case True
  show ?thesis
  proof (cases "\<exists>a chat. r = Some a \<and> a \<noteq> [] \<and> memoryStore s i = Some chat")
    case False
    with True have "ensSettled s i n r = s\<lparr>inflight := remove1 (i, n) (inflight s)\<rparr>"
      by (auto simp: ensSettled_def split: option.splits)
    with True show ?thesis by (simp add: collected_upd)
  next
    case True
    then obtain a chat where r: "r = Some a" "a \<noteq> []" "memoryStore s i = Some chat" by blast
    with \<open>(i, n) \<in> set (inflight s)\<close> have
      "ensSettled s i n r = (putChat s i (chat\<lparr>ensMap := mapSet (ensMap chat) n (Some a)\<rparr>))
                       \<lparr>inflight := remove1 (i, n) (inflight s)\<rparr>"
      by (simp add: ensSettled_def)
    moreover from r(3) have "collected s i = (ethSet chat, ensMap chat)"
      by (simp add: collected_def)
    ultimately have "attempts (ensSettled s i n r) = attempts s \<and>
        inflight (ensSettled s i n r) = remove1 (i, n) (inflight s) \<and>
        a \<noteq> [] \<and>
        collected (ensSettled s i n r) =
         (collected s)(i := (fst (collected s i), mapSet (snd (collected s i)) n (Some a)))"
      using r(2) by (simp add: collected_upd collected_putChat attempts_putChat)
    with \<open>(i, n) \<in> set (inflight s)\<close> show ?thesis by blast
  qed
qed

lemma ensSettled_inv:
  assumes inv: "storeInv s"
  shows "storeInv (ensSettled s i n r) \<and> grows s (ensSettled s i n r)"
proof -
  let ?s' = "ensSettled s i n r"
  from ensSettled_effect [of s i n r] show ?thesis
  proof
    assume "?s' = s \<and> (i, n) \<notin> set (inflight s)"
    with inv show ?thesis by (simp add: grows_refl)
  next
    assume "(i, n) \<in> set (inflight s) \<and> attempts ?s' = attempts s \<and>
      inflight ?s' = remove1 (i, n) (inflight s) \<and>
      (collected ?s' = collected s \<or>
       (\<exists>a. a \<noteq> [] \<and> collected ?s' =
          (collected s)(i := (fst (collected s i), mapSet (snd (collected s i)) n (Some a)))))"
    then have mem: "(i, n) \<in> set (inflight s)" and att: "attempts ?s' = attempts s"
      and inf: "inflight ?s' = remove1 (i, n) (inflight s)"
      and col: "collected ?s' = collected s \<or>
       (\<exists>a. a \<noteq> [] \<and> collected ?s' =
          (collected s)(i := (fst (collected s i), mapSet (snd (collected s i)) n (Some a))))"
      by blast+
    from inv mem have old: "nameValue s i n = Some None"
      by (simp add: storeInv_def)
    from inv have dinf: "distinct (inflight s)" by (simp add: storeInv_def)
    have other: "nameValue ?s' k m = nameValue s k m" if "(k, m) \<noteq> (i, n)" for k m
      using col that by (auto simp: nameValue_def map_of_mapSet)
    have this_one: "\<exists>v. nameValue ?s' i n = Some v"
      using col old by (auto simp: nameValue_def map_of_mapSet)
    have i5: "(m, Some []) \<notin> set (snd (collected ?s' k))" for k m
      using col
    proof
      assume "collected ?s' = collected s"
      with inv show ?thesis by (simp add: storeInv_def)
    next
      assume "\<exists>a. a \<noteq> [] \<and> collected ?s' =
          (collected s)(i := (fst (collected s i), mapSet (snd (collected s i)) n (Some a)))"
      then obtain a where a: "a \<noteq> []" "collected ?s' =
          (collected s)(i := (fst (collected s i), mapSet (snd (collected s i)) n (Some a)))"
        by blast
      from inv have b: "(m, Some []) \<notin> set (snd (collected s j))" for j
        by (simp add: storeInv_def)
      show ?thesis
        using a b [of k] b [of i] set_mapSet [of "snd (collected s i)" n "Some a"]
        by (auto split: if_splits)
    qed
    have i3: "nameValue ?s' k m \<noteq> None" if "(k, m) \<in> set (attempts ?s')" for k m
    proof (cases "(k, m) = (i, n)")
      case True
      with this_one show ?thesis by auto
    next
      case False
      from that inv have "nameValue s k m \<noteq> None" by (simp add: att storeInv_def)
      with other [OF False] show ?thesis by simp
    qed
    have i4: "nameValue ?s' k m = Some None" if "(k, m) \<in> set (inflight ?s')" for k m
    proof -
      from that dinf have ne: "(k, m) \<noteq> (i, n)" and "(k, m) \<in> set (inflight s)"
        by (auto simp: inf)
      with inv have "nameValue s k m = Some None" by (simp add: storeInv_def)
      with other [OF ne] show ?thesis by simp
    qed
    have d: "distinct (attempts ?s')" "distinct (inflight ?s')" "set (inflight ?s') \<subseteq> set (attempts ?s')"
      using inv set_remove1_subset [of "(i, n)" "inflight s"] by (auto simp: att inf storeInv_def)
    have "storeInv ?s'"
      unfolding storeInv_def using d i3 i4 i5 by blast
    moreover have "grows s ?s'"
      unfolding grows_def
    proof (intro allI impI)
      fix k m v
      assume v: "nameValue s k m = Some v"
      show "\<exists>v'. nameValue ?s' k m = Some v' \<and> (v \<noteq> None \<longrightarrow> v' = v)"
      proof (cases "(k, m) = (i, n)")
        case True
        with v old this_one show ?thesis by auto
      next
        case False
        from other [OF False] v show ?thesis by simp
      qed
    qed
    ultimately show ?thesis ..
  qed
qed

lemma runRoute_inv:
  assumes inv: "storeInv s"
  shows "storeInv (fst (runRoute cfg s c t r)) \<and> grows s (fst (runRoute cfg s c t r))"
proof (cases r)
  case RHelp
  with inv show ?thesis by (simp add: runRoute_def grows_refl)
next
  case RWhoami
  with inv show ?thesis by (simp add: runRoute_def grows_refl)
next
  case RStatus
  have "storeInv (fst (handleStatus cfg s c)) \<and> grows s (fst (handleStatus cfg s c))"
    by (rule frame_step [OF _ _ _ inv]) (simp_all add: handleStatus_frame)
  with RStatus show ?thesis by (simp add: runRoute_def)
next
  case RMakeList
  have "storeInv (fst (handleMakeList cfg s c)) \<and> grows s (fst (handleMakeList cfg s c))"
    by (rule frame_step [OF _ _ _ inv]) (simp_all add: handleMakeList_frame)
  with RMakeList show ?thesis by (simp add: runRoute_def)
next
  case RCollect
  with handleText_inv [OF inv, of cfg c t] show ?thesis by (simp add: runRoute_def)
qed

lemma step_inv:
  assumes inv: "storeInv s"
  shows "storeInv (fst (step cfg s e)) \<and> grows s (fst (step cfg s e))"
proof (cases e)
  case (MyChatMember c old new)
  with handleMyChatMember_frame [OF inv] show ?thesis by simp
next
  case (TextMessage c t command)
  with runRoute_inv [OF inv] inv show ?thesis by (simp add: grows_refl)
next
  case (ChannelPost c ot)
  with runRoute_inv [OF inv] inv show ?thesis by (cases ot) (simp_all add: grows_refl)
next
  case (EnsSettled i n r)
  with ensSettled_inv [OF inv] show ?thesis by simp
qed

lemma run_inv: "storeInv s \<Longrightarrow> storeInv (run cfg s es) \<and> grows s (run cfg s es)"
proof (induction es arbitrary: s)
  case Nil
  then show ?case by (simp add: grows_refl)
next
  case (Cons e es)
  from step_inv [OF Cons.prems, of cfg e]
  have a: "storeInv (fst (step cfg s e))" and b: "grows s (fst (step cfg s e))" by simp_all
  from Cons.IH [OF a] b show ?case by (auto intro: grows_trans)
qed

lemma storeInv_init: "storeInv initState"
  by (simp add: storeInv_def initState_def nameValue_def collected_def)

lemma count_list_distinct: "distinct xs \<Longrightarrow> count_list xs x \<le> 1"
  by (induction xs) (auto simp: count_list_0_iff)


section \<open>Lemmas on the address pattern\<close>

lemma headOpt_drop: "headOpt (drop n t) = (if n < length t then Some (t ! n) else None)"
proof (cases "n < length t")
  case True
  then have "drop n t = t ! n # drop (Suc n) t" by (simp add: Cons_nth_drop_Suc)
  with True show ?thesis by (simp add: headOpt_def)
next
  case False
  then show ?thesis by (simp add: headOpt_def)
qed

lemma isWordAt_headOpt_drop: "isWordAt (headOpt (drop n t)) = wordAt t n"
  by (simp add: headOpt_drop isWordAt_def wordAt_def)

lemma isWordAt_prevOf: "k \<le> length t \<Longrightarrow> isWordAt (prevOf t k) = (0 < k \<and> wordAt t (k - 1))"
  by (auto simp: prevOf_def isWordAt_def wordAt_def)

lemma hex_is_word: "isHexDigit c \<Longrightarrow> isWordChar c"
proof -
  assume "isHexDigit c"
  moreover have "CHR ''f'' \<le> CHR ''z''" "CHR ''F'' \<le> CHR ''Z''" by simp_all
  ultimately show ?thesis
    unfolding isHexDigit_def isWordChar_def isLower_def isUpper_def
    by (meson order_trans)
qed

lemma zero_x_word: "isWordChar (CHR ''0'')" "isWordChar (CHR ''x'')"
  by (simp_all add: isWordChar_def isDigit_def isLower_def isUpper_def)

text \<open>Every code unit of a match is a word character.\<close>


lemma match_all_word:
  assumes "42 \<le> length s" "take 2 s = ''0x''" "list_all isHexDigit (take 40 (drop 2 s))" "j < 42"
  shows "isWordChar (s ! j)"
proof (cases "j < 2")
  case True
  from assms(1) True have "s ! j = take 2 s ! j" by simp
  with assms(2) True zero_x_word show ?thesis
    by (cases j) (auto simp: less_Suc_eq)
next
  case False
  then have j: "2 \<le> j" by simp
  from assms(4) j have "take 40 (drop 2 s) ! (j - 2) = drop 2 s ! (j - 2)" by simp
  also from assms(1) have "\<dots> = s ! (2 + (j - 2))" by (intro nth_drop) simp
  also from j have "2 + (j - 2) = j" by simp
  finally have "s ! j = take 40 (drop 2 s) ! (j - 2)" by simp
  moreover from assms(1,4) j have "j - 2 < length (take 40 (drop 2 s))" by simp
  ultimately have "isHexDigit (s ! j)"
    using assms(3) by (simp add: list_all_length)
  then show ?thesis by (rule hex_is_word)
qed

lemma ethMatchAt_iff:
  "ethMatchAt prev s =
     (if 42 \<le> length s \<and> take 2 s = ''0x'' \<and> list_all isHexDigit (take 40 (drop 2 s)) \<and>
         \<not> isWordAt prev \<and> \<not> isWordAt (headOpt (drop 42 s))
      then Some (take 42 s) else None)"
proof (cases "42 \<le> length s \<and> take 2 s = ''0x'' \<and> list_all isHexDigit (take 40 (drop 2 s))")
  case False
  then show ?thesis by (auto simp: ethMatchAt_def)
next
  case True
  then have a: "isWordChar (s ! 0)" "isWordChar (s ! 41)"
    by (auto intro: match_all_word)
  from True have "headOpt s = Some (s ! 0)" "headOpt (drop 41 s) = Some (s ! 41)"
    using headOpt_drop [of 0 s] headOpt_drop [of 41 s] by auto
  with a have "isWordAt (headOpt s)" "isWordAt (headOpt (drop 41 s))"
    by (simp_all add: isWordAt_def)
  with True show ?thesis
    by (auto simp: ethMatchAt_def wordBoundary_def)
qed

lemma ethMatchAt_spec:
  assumes "k \<le> length t"
  shows "ethMatchAt (prevOf t k) (drop k t) = (if specEthAt t k then Some (take 42 (drop k t)) else None)"
proof -
  have "(42 \<le> length (drop k t)) = (k + 42 \<le> length t)" using assms by auto
  moreover have "drop 2 (drop k t) = drop (k + 2) t" "drop 42 (drop k t) = drop (k + 42) t"
    by (simp_all add: add.commute)
  ultimately show ?thesis
    using assms
    by (simp add: ethMatchAt_iff specEthAt_def isWordAt_headOpt_drop isWordAt_prevOf)
qed

lemma specEthAt_gap:
  assumes "specEthAt t k" "k < j" "j < k + 42"
  shows "\<not> specEthAt t j"
proof -
  from assms(1) have "k + 42 \<le> length t" by (simp add: specEthAt_def)
  then have s1: "42 \<le> length (drop k t)" by simp
  from assms(1) have s2: "take 2 (drop k t) = ''0x''"
    and s3: "list_all isHexDigit (take 40 (drop 2 (drop k t)))"
    by (simp_all add: specEthAt_def add.commute)
  note s = s1 s2 s3
  from assms(2,3) have "j - 1 - k < 42" by simp
  from match_all_word [OF s this] assms(2) s(1) have "isWordChar (t ! (j - 1))"
    by simp
  moreover from assms s(1) have "j - 1 < length t" by simp
  ultimately have "0 < j \<and> wordAt t (j - 1)"
    using assms(2) by (simp add: wordAt_def)
  then show ?thesis by (simp add: specEthAt_def)
qed

lemma ethScan_spec:
  "k \<le> length t \<Longrightarrow>
   ethScan (prevOf t k) (drop k t) = map (\<lambda>i. take 42 (drop i t)) (filter (specEthAt t) [k..<length t])"
proof (induction "length t - k" arbitrary: k rule: less_induct)
  case less
  show ?case
  proof (cases "k = length t")
    case True
    then show ?thesis by simp
  next
    case False
    with less.prems have lt: "k < length t" by simp
    then have d: "drop k t = t ! k # drop (Suc k) t" by (simp add: Cons_nth_drop_Suc)
    have up: "[k..<length t] = k # [Suc k..<length t]" using lt by (simp add: upt_conv_Cons)
    show ?thesis
    proof (cases "specEthAt t k")
      case False
      have "ethScan (prevOf t k) (drop k t) = ethScan (Some (t ! k)) (drop (Suc k) t)"
        using ethMatchAt_spec [OF less.prems] False by (simp add: d [symmetric]) (simp add: d)
      also have "Some (t ! k) = prevOf t (Suc k)" by (simp add: prevOf_def)
      also have "ethScan (prevOf t (Suc k)) (drop (Suc k) t) =
          map (\<lambda>i. take 42 (drop i t)) (filter (specEthAt t) [Suc k..<length t])"
        using lt by (intro less.hyps) auto
      finally show ?thesis using False by (simp add: up)
    next
      case True
      then have len: "k + 42 \<le> length t" by (simp add: specEthAt_def)
      let ?m = "take 42 (drop k t)"
      have lastm: "last ?m = t ! (k + 41)"
        using len by (simp add: last_conv_nth add.commute)
      have "ethScan (prevOf t k) (drop k t) = ?m # ethScan (Some (last ?m)) (drop 42 (drop k t))"
        using ethMatchAt_spec [OF less.prems] True by (simp add: d [symmetric]) (simp add: d)
      also have "Some (last ?m) = prevOf t (k + 42)"
      proof -
        have "k + 42 - 1 = k + 41" by simp
        then show ?thesis by (simp only: lastm prevOf_def) simp
      qed
      also have "drop 42 (drop k t) = drop (k + 42) t" by (simp add: add.commute)
      also have "ethScan (prevOf t (k + 42)) (drop (k + 42) t) =
          map (\<lambda>i. take 42 (drop i t)) (filter (specEthAt t) [k + 42..<length t])"
        using len lt by (intro less.hyps) auto
      finally have scan: "ethScan (prevOf t k) (drop k t) =
          ?m # map (\<lambda>i. take 42 (drop i t)) (filter (specEthAt t) [k + 42..<length t])" .
      from len obtain d where d: "length t = (k + 42) + d"
        by (auto simp: le_iff_add)
      have "[Suc k..<(k + 42) + d] = [Suc k..<k + 42] @ [k + 42..<(k + 42) + d]"
        by (rule upt_add_eq_append) simp
      then have "[Suc k..<length t] = [Suc k..<k + 42] @ [k + 42..<length t]"
        by (simp only: d)
      moreover have "filter (specEthAt t) [Suc k..<k + 42] = []"
        using specEthAt_gap [OF True] by (auto simp: filter_empty_conv)
      ultimately have "filter (specEthAt t) [k..<length t] = k # filter (specEthAt t) [k + 42..<length t]"
        using True by (simp add: up)
      with scan show ?thesis by simp
    qed
  qed
qed


section \<open>Lemmas on the chunks\<close>

lemma digitVal_digitChar: "d < 10 \<Longrightarrow> digitVal (digitChar d) = d"
proof -
  assume "d < 10"
  then have "d \<in> {0, 1, 2, 3, 4, 5, 6, 7, 8, 9}" by auto
  then show ?thesis
    by (auto simp: digitVal_def digitChar_def)
qed

lemma readNat_showNat: "readNat (showNat n) = n"
proof (induction n rule: showNat.induct)
  case (1 n)
  show ?case
  proof (cases "n < 10")
    case True
    then show ?thesis
      by (subst showNat.simps) (simp add: readNat_def digitVal_digitChar)
  next
    case False
    with 1 have "readNat (showNat (n div 10)) = n div 10" by simp
    with False show ?thesis
      by (subst showNat.simps) (simp add: readNat_def digitVal_digitChar)
  qed
qed

lemma showNat_inj: "showNat a = showNat b \<Longrightarrow> a = b"
  by (metis readNat_showNat)

lemma digitChar_digit: "digitChar d \<in> set ''0123456789''"
proof -
  have "d mod 10 < length ''0123456789''" by simp
  then show ?thesis unfolding digitChar_def by (rule nth_mem)
qed

lemma showNat_digits: "set (showNat n) \<subseteq> set ''0123456789''"
proof (induction n rule: showNat.induct)
  case (1 n)
  show ?case
  proof (cases "n < 10")
    case True
    then show ?thesis
      using digitChar_digit [of n] by (subst showNat.simps) simp
  next
    case False
    with 1 have "set (showNat (n div 10)) \<subseteq> set ''0123456789''" by simp
    with False show ?thesis
      using digitChar_digit [of "n mod 10"] by (subst showNat.simps) simp
  qed
qed

lemma length_showNat_3:
  assumes "100 \<le> n" "n < 1000"
  shows "length (showNat n) = 3"
proof -
  from assms have a: "\<not> n < 10" "\<not> n div 10 < 10" "n div 10 div 10 < 10" by arith+
  have "showNat n = showNat (n div 10) @ [digitChar (n mod 10)]"
    using a(1) by (subst showNat.simps) simp
  also have "showNat (n div 10) = showNat (n div 10 div 10) @ [digitChar (n div 10 mod 10)]"
    using a(2) by (subst showNat.simps) simp
  also have "showNat (n div 10 div 10) = [digitChar (n div 10 div 10)]"
    using a(3) by (subst showNat.simps) simp
  finally show ?thesis by simp
qed

lemma many_member:
  assumes "a \<in> set manyAddresses"
  obtains i where "100 \<le> i" "i < 194" "a = ''0x'' @ showNat i @ replicate 37 (CHR ''0'')"
proof -
  from assms have "a \<in> (\<lambda>i. ''0x'' @ showNat i @ replicate 37 (CHR ''0'')) ` {100..<194}"
    by (simp only: manyAddresses_def set_map set_upt)
  then obtain i where "i \<in> {100..<194}" "a = ''0x'' @ showNat i @ replicate 37 (CHR ''0'')"
    by (rule imageE)
  moreover from this(1) have "100 \<le> i" "i < 194"
    by (simp_all only: atLeastLessThan_iff)
  ultimately show ?thesis using that by blast
qed

lemma plain_chars: "list_all (\<lambda>c. toLowerChar c = c) ''0123456789x''"
  by code_simp

lemma toLowerChar_plain: "c \<in> set ''0123456789x'' \<Longrightarrow> toLowerChar c = c"
  using plain_chars unfolding list_all_iff by blast

lemma toLowerCase_plain:
  assumes "set s \<subseteq> set ''0123456789x''"
  shows "toLowerCase s = s"
  unfolding toLowerCase_def
proof (rule map_idI)
  fix c
  assume "c \<in> set s"
  with assms have "c \<in> set ''0123456789x''" by blast
  then show "toLowerChar c = c" by (rule toLowerChar_plain)
qed

lemma many_plain:
  assumes "a \<in> set manyAddresses"
  shows "toLowerCase a = a"
proof -
  from assms obtain i where a: "a = ''0x'' @ showNat i @ replicate 37 (CHR ''0'')"
    by (rule many_member)
  have "set ''0x'' \<subseteq> set ''0123456789x''" "set (replicate 37 (CHR ''0'')) \<subseteq> set ''0123456789x''"
    "set ''0123456789'' \<subseteq> set ''0123456789x''"
    by simp_all
  with showNat_digits [of i] have "set a \<subseteq> set ''0123456789x''"
    unfolding a set_append by blast
  then show ?thesis by (rule toLowerCase_plain)
qed

lemma many_length: "length manyAddresses = 94"
proof -
  have "length manyAddresses = 194 - 100"
    by (simp only: manyAddresses_def length_map length_upt)
  then show ?thesis by simp
qed

lemma many_each_42:
  assumes "a \<in> set manyAddresses"
  shows "length a = 42"
proof -
  from assms obtain i where "100 \<le> i" "i < 194" "a = ''0x'' @ showNat i @ replicate 37 (CHR ''0'')"
    by (rule many_member)
  then show ?thesis by (simp add: length_showNat_3)
qed

lemma many_distinct: "distinct manyAddresses"
proof -
  have "inj (\<lambda>i. ''0x'' @ showNat i @ replicate 37 (CHR ''0''))"
    by (rule injI) (auto dest: showNat_inj)
  then have "inj_on (\<lambda>i. ''0x'' @ showNat i @ replicate 37 (CHR ''0'')) (set [100..<194])"
    by (rule inj_on_subset) (rule subset_UNIV)
  then show ?thesis
    by (simp only: manyAddresses_def distinct_map distinct_upt simp_thms)
qed

lemma addCollected_distinct:
  "distinct (acc @ map toLowerCase xs) \<Longrightarrow> addCollected acc xs = acc @ map toLowerCase xs"
  by (induction xs arbitrary: acc) (auto simp: setAdd_def)

lemma chunkLoop_fits:
  "length cur + sum_list (map (\<lambda>a. Suc (length a)) as) \<le> maxLength \<Longrightarrow>
   chunkLoop chunks cur as = (chunks, cur @ concat (map (\<lambda>a. a @ newline) as))"
  by (induction as arbitrary: cur) (auto simp: newline_def)

lemma chunkLoop_append:
  "chunkLoop chunks cur (xs @ ys) =
     (case chunkLoop chunks cur xs of (chunks', cur') \<Rightarrow> chunkLoop chunks' cur' ys)"
  by (induction xs arbitrary: chunks cur) auto

lemma sum_uniform:
  "list_all (\<lambda>a. length a = 42) as \<Longrightarrow> sum_list (map (\<lambda>a. Suc (length a)) as) = 43 * length as"
  by (induction as) auto

lemma length_lines:
  "list_all (\<lambda>a. length a = 42) as \<Longrightarrow> length (concat (map (\<lambda>a. a @ newline) as)) = 43 * length as"
  by (induction as) (auto simp: newline_def)

lemma length_join:
  "as \<noteq> [] \<Longrightarrow> list_all (\<lambda>a. length a = 42) as \<Longrightarrow> length (join newline as) = 43 * length as - 1"
  by (induction newline as rule: join.induct) (auto simp: newline_def)

lemma makeChunks_two:
  assumes u: "list_all (\<lambda>a. length a = 42) as" and n: "length as = 94" and h: "length hdr = 92"
  shows "\<exists>c1 c2. makeChunks hdr as = [c1, c2] \<and> length c1 = 4091 \<and> length c2 = 43"
proof -
  from n have ne: "as \<noteq> []" by auto
  then have split: "as = butlast as @ [last as]" by simp
  from u have ub: "list_all (\<lambda>a. length a = 42) (butlast as)"
    by (auto simp: list_all_iff dest: in_set_butlastD)
  have nb: "length (butlast as) = 93" by (simp add: n)
  from ne u have l: "length (last as) = 42"
    by (auto simp: list_all_iff)
  let ?c1 = "hdr @ concat (map (\<lambda>a. a @ newline) (butlast as))"
  have len1: "length ?c1 = 4091"
    by (simp add: h length_lines [OF ub] n)
  have first: "chunkLoop [] hdr (butlast as) = ([], ?c1)"
    by (rule chunkLoop_fits) (simp add: h sum_uniform [OF ub] n maxLength_def)
  have "chunkLoop [] hdr as = chunkLoop [] ?c1 [last as]"
    by (subst split) (simp add: chunkLoop_append first)
  also have "\<dots> = ([?c1], last as @ newline)"
    using len1 l by (simp add: maxLength_def newline_def)
  finally have "makeChunks hdr as = [?c1, last as @ newline]"
    by (simp add: makeChunks_def newline_def)
  with len1 l show ?thesis by (simp add: newline_def)
qed

lemma blocks_two:
  assumes u: "list_all (\<lambda>a. length a = 42) as" and n: "length as = 94" and h: "length hdr = 92"
  shows "map length (blocks hdr as) = [4102, 54]"
proof -
  from makeChunks_two [OF assms] obtain c1 c2 where
    c: "makeChunks hdr as = [c1, c2]" "length c1 = 4091" "length c2 = 43"
    by blast
  from n have ne: "as \<noteq> []" by auto
  have "length (hdr @ join newline as) = 4133"
    by (simp add: h length_join [OF ne u] n)
  then have big: "\<not> length (hdr @ join newline as) \<le> maxLength"
    by (simp add: maxLength_def)
  have up: "[0..<2] = [0, Suc 0]" by (simp add: upt_rec)
  have s: "showNat (Suc 0) = ''1''" "showNat (Suc (Suc 0)) = ''2''" "showNat 2 = ''2''"
    by (simp_all add: showNat.simps digitChar_def)
  have l2: "length (makeChunks hdr as) = 2" by (simp add: c(1))
  from big have "blocks hdr as = map (\<lambda>(i, chunk). partText i 2 chunk) (zip [0..<2] [c1, c2])"
    by (simp only: blocks_def l2 if_False) (simp only: c(1))
  then have "blocks hdr as = [partText 0 2 c1, partText 1 2 c2]"
    by (simp add: up)
  then show ?thesis
    by (simp add: partText_def s c newline_def)
qed

lemma bigChat_export:
  "length (exportAddresses cfg0 bigChat) = 94 \<and> list_all (\<lambda>a. length a = 42) (exportAddresses cfg0 bigChat)"
proof -
  have low: "map toLowerCase manyAddresses = manyAddresses"
    by (rule map_idI) (rule many_plain)
  have "addCollected [] manyAddresses = [] @ map toLowerCase manyAddresses"
    by (rule addCollected_distinct) (simp add: low many_distinct)
  with low have a: "addressSet bigChat = manyAddresses"
    by (simp add: addressSet_def bigChat_def)
  have e: "exportAddresses cfg0 bigChat = sortAddresses manyAddresses"
    by (simp add: exportAddresses_def a checksumAll_def cfg0_def)
  have "set (sortAddresses manyAddresses) = set manyAddresses"
    by (simp add: sortAddresses_def)
  then have "list_all (\<lambda>a. length a = 42) (sortAddresses manyAddresses)"
    by (simp add: list_all_iff many_each_42)
  then show ?thesis
    by (simp add: e length_sortAddresses many_length)
qed

lemma header_92: "length (header groupCtx 94 0 94) = 92"
  by (simp add: header_def chatName_def groupCtx_def clipboardIcon_def newline_def showNat.simps digitChar_def)



lemma chunkLoop_bounded:
  "chunkLoop chunks cur as = (chunks', cur') \<Longrightarrow>
   list_all (\<lambda>c. length c \<le> maxLength) chunks \<Longrightarrow> length cur \<le> maxLength \<Longrightarrow>
   list_all (\<lambda>a. length (a @ newline) \<le> maxLength) as \<Longrightarrow>
   list_all (\<lambda>c. length c \<le> maxLength) chunks' \<and> length cur' \<le> maxLength"
  by (induction as arbitrary: chunks cur) (auto split: if_splits)


section \<open>The claims\<close>

subsection \<open>The size of a part\<close>

text \<open>
  C1 fails on the code. The loop keeps every chunk within 4096 code units, and the
  text that is sent is the chunk after \<open>Part i/n:\<close> and two line breaks, which the
  loop does not count. For the chat with 94 addresses, in the group
  \<open>Airdrop Signup Channel\<close>, the owner gets two parts: the first has 4102 code units,
  the second 54; the reply to the group has 31.
\<close>

theorem makelist_part_too_long:
  "map (\<lambda>a. case a of SendMessage to txt \<Rightarrow> (to, length txt))
     (snd (handleMakeList cfg0 bigState groupCtx))
   = [(42, 4102), (42, 54), (- 1001, 31)] \<and> maxLength = 4096"
proof -
  let ?ex = "exportAddresses cfg0 bigChat"
  from bigChat_export have n: "length ?ex = 94" and u: "list_all (\<lambda>a. length a = 42) ?ex"
    by simp_all
  from n have ne: "exportAddresses cfg0 bigChat \<noteq> []" by auto
  have cid: "chat_id groupCtx = - 1001"
    by (simp add: groupCtx_def)
  have ens: "ensureChat bigState (- 1001) = (bigState, bigChat)"
    by (simp add: ensureChat_def bigState_def)
  have own: "ownerOnly cfg0 groupCtx"
    by (simp add: ownerOnly_def cfg0_def groupCtx_def)
  have em: "ensMap bigChat = []" "ethSet bigChat = manyAddresses"
    by (simp_all add: bigChat_def)
  from blocks_two [OF u n header_92] obtain b1 b2 where
    b: "blocks (header groupCtx 94 0 94) ?ex = [b1, b2]" "length b1 = 4102" "length b2 = 54"
    by (auto simp: map_eq_Cons_conv)
  have send: "sendAll groupCtx (ownerTelegramId cfg0) [b1, b2] = ([SendMessage 42 b1, SendMessage 42 b2], True)"
    by (simp add: sendAll_def groupCtx_def cfg0_def)
  have "snd (handleMakeList cfg0 bigState groupCtx) =
      [SendMessage 42 b1, SendMessage 42 b2, SendMessage (- 1001) ''Sent you a DM with the results.'']"
    using own ne
    by (simp add: handleMakeList_def cid ens em many_length n b(1) send reply_def)
  then show ?thesis
    by (simp add: b maxLength_def)
qed

subsection \<open>The result set of the export\<close>

text \<open>
  C2. In every state the program reaches, the result set that \<open>handleMakeList\<close> builds for a
  chat is the set of the chat's collected addresses, in lower case, together with the
  resolved addresses, in lower case, of the names whose stored value is not \<open>null\<close>. A name
  with the value \<open>null\<close> adds nothing, no name is listed, and the set has no member
  twice: an address collected from a text and the same address obtained from a name are
  one entry.
\<close>

theorem result_set_of_makelist:
  assumes "memoryStore (run cfg initState evs) chatId = Some chat"
  shows "set (addressSet chat) =
           toLowerCase ` set (ethSet chat) \<union>
           toLowerCase ` {a. \<exists>name. (name, Some a) \<in> set (ensMap chat)} \<and>
         distinct (addressSet chat)"
proof -
  from run_inv [OF storeInv_init, of cfg evs] have "storeInv (run cfg initState evs)" by simp
  then have "(n, Some []) \<notin> set (snd (collected (run cfg initState evs) chatId))" for n
    by (simp add: storeInv_def)
  with assms have ne: "(n, Some []) \<notin> set (ensMap chat)" for n
    by (simp add: collected_def)
  then have "{a. a \<noteq> [] \<and> (\<exists>name. (name, Some a) \<in> set (ensMap chat))} =
      {a. \<exists>name. (name, Some a) \<in> set (ensMap chat)}"
    by auto
  then show ?thesis
    by (simp add: addressSet_def set_addResolved set_addCollected distinct_addResolved distinct_addCollected)
qed

theorem result_set_of_makelist_witness:
  "memoryStore (run cfg0 initState sampleRun) (- 1001) = Some sampleChat \<and>
   set (addressSet sampleChat) =
     toLowerCase ` set (ethSet sampleChat) \<union>
     toLowerCase ` {a. \<exists>name. (name, Some a) \<in> set (ensMap sampleChat)} \<and>
   distinct (addressSet sampleChat) \<and>
   addressSet sampleChat = [''0x52908400098527886e0f7030069857d2e4169ee7'']"
proof -
  have h: "memoryStore (run cfg0 initState sampleRun) (- 1001) = Some sampleChat"
    by code_simp
  have e: "addressSet sampleChat = [''0x52908400098527886e0f7030069857d2e4169ee7'']"
    by code_simp
  from result_set_of_makelist [OF h] h e show ?thesis by simp
qed

subsection \<open>The collector handles a text once\<close>

text \<open>
  C3. Handling a text a second time leaves the state that handling it once gave: the
  addresses and the names of the chat are the same, and so is the list of the calls of the
  resolver, so the second pass starts no resolution.
\<close>

theorem handleText_idempotent:
  "handleText cfg (handleText cfg s c t) c t = handleText cfg s c t"
proof (cases "ensureChat s (chat_id c)")
  case (Pair s1 chat)
  then have s1: "memoryStore s1 (chat_id c) = Some chat"
    by (auto simp: ensureChat_def split: option.splits)
  show ?thesis
  proof (cases "watching chat")
    case False
    with Pair s1 show ?thesis
      by (simp add: handleText_def ensureChat_def)
  next
    case True
    obtain m st where a: "addEns (useEns cfg) (ensMap chat, []) (ensMatches t) = (m, st)"
      by (cases "addEns (useEns cfg) (ensMap chat, []) (ensMatches t)")
    have b: "addEns (useEns cfg) (m, []) (ensMatches t) = (m, [])"
      by (rule addEns_twice [OF a])
    from Pair True a have r: "handleText cfg s c t =
        (putChat s1 (chat_id c) (chat\<lparr>ethSet := addEth (ethSet chat) (ethMatches t), ensMap := m\<rparr>))
          \<lparr>attempts := attempts s1 @ map (Pair (chat_id c)) st,
           inflight := inflight s1 @ map (Pair (chat_id c)) st\<rparr>"
      by (simp add: handleText_def)
    show ?thesis
      unfolding r
      using True b
      by (simp add: handleText_def ensureChat_def putChat_def addEth_twice)
  qed
qed

theorem handleText_idempotent_witness:
  "handleText cfg0 (handleText cfg0 watchedState channelCtx sampleText) channelCtx sampleText
     = handleText cfg0 watchedState channelCtx sampleText \<and>
   collected (handleText cfg0 watchedState channelCtx sampleText) (- 1002)
     = ([''0x52908400098527886e0f7030069857d2e4169ee7''], [(''vitalik.eth'', None)]) \<and>
   attempts (handleText cfg0 watchedState channelCtx sampleText) = [(- 1002, ''vitalik.eth'')]"
proof -
  have a: "collected (handleText cfg0 watchedState channelCtx sampleText) (- 1002)
     = ([''0x52908400098527886e0f7030069857d2e4169ee7''], [(''vitalik.eth'', None)])"
    by code_simp
  have b: "attempts (handleText cfg0 watchedState channelCtx sampleText) = [(- 1002, ''vitalik.eth'')]"
    by code_simp
  from handleText_idempotent [of cfg0 watchedState channelCtx sampleText] a b show ?thesis by simp
qed

subsection \<open>The address pattern\<close>

text \<open>
  C4, as the code has it. The matches of \<open>ethRegex\<close> in a text are the substrings that
  start at a position where the text has \<open>0x\<close>, with a small \<open>x\<close>, followed by 40
  hexadecimal digits in either case, between two word boundaries; they come in the order
  of their positions.
\<close>

theorem ethMatches_spec: "ethMatches t = specEthMatches t"
  using ethScan_spec [of 0 t] by (simp add: ethMatches_def specEthMatches_def prevOf_def)

theorem ethMatches_spec_witness:
  "ethMatches ''to 0x52908400098527886E0F7030069857D2E4169EE7, thanks''
     = specEthMatches ''to 0x52908400098527886E0F7030069857D2E4169EE7, thanks'' \<and>
   ethMatches ''to 0x52908400098527886E0F7030069857D2E4169EE7, thanks''
     = [''0x52908400098527886E0F7030069857D2E4169EE7'']"
proof -
  have "ethMatches ''to 0x52908400098527886E0F7030069857D2E4169EE7, thanks''
     = [''0x52908400098527886E0F7030069857D2E4169EE7'']"
    by code_simp
  with ethMatches_spec [of "''to 0x52908400098527886E0F7030069857D2E4169EE7, thanks''"]
  show ?thesis by simp
qed

text \<open>
  C4 as it is written fails: the pattern has no \<open>i\<close> flag, and an address written with
  \<open>0X\<close> is not matched.
\<close>

theorem capital_prefix_not_matched:
  "ethMatches ''to 0X52908400098527886E0F7030069857D2E4169EE7, thanks'' = []"
  by code_simp

subsection \<open>A chat that is not watched\<close>

text \<open>
  C5, as the code has it. When the chat is not watched, or has no state yet, the collector
  records no address and no name and starts no resolution. A chat that has a state keeps
  the whole program state as it was; a chat without one gets a fresh state in the
  registry (not watched, nothing collected), which is the only change.
\<close>

theorem handleText_not_watching:
  assumes "memoryStore s (chat_id c) = None \<or>
           (\<exists>chat. memoryStore s (chat_id c) = Some chat \<and> \<not> watching chat)"
  shows "handleText cfg s c t =
     (case memoryStore s (chat_id c) of
        None \<Rightarrow> s\<lparr>memoryStore := (memoryStore s)(chat_id c \<mapsto> newChat)\<rparr>
      | Some chat \<Rightarrow> s)"
  using assms
  by (auto simp: handleText_def ensureChat_def newChat_def split: option.splits)

theorem handleText_not_watching_witness:
  "(memoryStore initState (chat_id groupCtx) = None \<or>
    (\<exists>chat. memoryStore initState (chat_id groupCtx) = Some chat \<and> \<not> watching chat)) \<and>
   handleText cfg0 initState groupCtx sampleText
     = initState\<lparr>memoryStore := (memoryStore initState)(- 1001 \<mapsto> newChat)\<rparr>"
proof -
  have h: "memoryStore initState (chat_id groupCtx) = None"
    by (simp add: initState_def)
  from handleText_not_watching [OF disjI1 [OF h], of cfg0 sampleText] h show ?thesis
    by (simp add: groupCtx_def)
qed

text \<open>
  C5 as it is written fails: the first text of a chat without a state changes the
  registry.
\<close>

theorem handleText_creates_chat:
  "memoryStore initState (chat_id groupCtx) = None \<and>
   handleText cfg0 initState groupCtx sampleText \<noteq> initState"
proof -
  have "memoryStore (handleText cfg0 initState groupCtx sampleText) (- 1001) \<noteq> memoryStore initState (- 1001)"
    by (simp add: handleText_def ensureChat_def initState_def newChat_def groupCtx_def)
  then have "handleText cfg0 initState groupCtx sampleText \<noteq> initState"
    by auto
  then show ?thesis by (simp add: initState_def)
qed

subsection \<open>The life of a name\<close>

text \<open>
  C6. Take any run of the program from its start and any continuation of the run. A name
  that a chat's map has after the run is still there after the continuation; if its
  value was a resolved address, it is the same address afterwards, so a value changes at
  most once, from \<open>null\<close> to an address; and the resolver has been called at most once
  for the name in the chat.
\<close>

theorem name_entries_settle_once:
  "(nameValue (run cfg initState evs1) chatId name = Some v \<longrightarrow>
      (\<exists>v'. nameValue (run cfg (run cfg initState evs1) evs2) chatId name = Some v' \<and>
            (v \<noteq> None \<longrightarrow> v' = v))) \<and>
   count_list (attempts (run cfg (run cfg initState evs1) evs2)) (chatId, name) \<le> 1"
proof -
  from run_inv [OF storeInv_init] have i1: "storeInv (run cfg initState evs1)" by simp
  from run_inv [OF i1, of cfg evs2]
  have i2: "storeInv (run cfg (run cfg initState evs1) evs2)"
    and g: "grows (run cfg initState evs1) (run cfg (run cfg initState evs1) evs2)"
    by simp_all
  from i2 have "distinct (attempts (run cfg (run cfg initState evs1) evs2))"
    by (simp add: storeInv_def)
  then have "count_list (attempts (run cfg (run cfg initState evs1) evs2)) (chatId, name) \<le> 1"
    by (rule count_list_distinct)
  with g show ?thesis unfolding grows_def by blast
qed

theorem name_entries_settle_once_witness:
  "nameValue (run cfg0 initState sampleRun) (- 1001) ''vitalik.eth''
     = Some (Some ''0x52908400098527886E0F7030069857D2E4169EE7'') \<and>
   nameValue (run cfg0 (run cfg0 initState sampleRun) sampleLater) (- 1001) ''vitalik.eth''
     = Some (Some ''0x52908400098527886E0F7030069857D2E4169EE7'') \<and>
   count_list (attempts (run cfg0 (run cfg0 initState sampleRun) sampleLater)) (- 1001, ''vitalik.eth'') \<le> 1 \<and>
   attempts (run cfg0 initState sampleRun) = [(- 1001, ''vitalik.eth'')]"
proof -
  have h: "nameValue (run cfg0 initState sampleRun) (- 1001) ''vitalik.eth''
     = Some (Some ''0x52908400098527886E0F7030069857D2E4169EE7'')"
    by code_simp
  have a: "attempts (run cfg0 initState sampleRun) = [(- 1001, ''vitalik.eth'')]"
    by code_simp
  from name_entries_settle_once [of cfg0 sampleRun "- 1001" "''vitalik.eth''"
      "Some ''0x52908400098527886E0F7030069857D2E4169EE7''" sampleLater] h a
  show ?thesis by auto
qed

subsection \<open>Commands in a channel post and in a message\<close>

text \<open>
  C7 fails on the code. The text \<open>/helpme 0x52908400098527886E0F7030069857D2E4169EE7\<close>
  starts with \<open>/help\<close>, so as a channel post it runs \<open>handleHelp\<close>; as a message its
  command is \<open>helpme\<close>, which is not registered, so it goes to the collector.
\<close>

theorem channel_prefix_runs_help:
  "channelRoute ''/helpme 0x52908400098527886E0F7030069857D2E4169EE7'' = RHelp \<and>
   messageRoute (Some ''helpme'') = RCollect"
  by code_simp

subsection \<open>The checksum of one address fails\<close>



subsection \<open>An export with nothing to list\<close>

text \<open>
  C9, as the code has it. When the owner asks for the list of a chat whose result set is
  empty, the bot sends one message, \<open>No addresses collected yet.\<close>, and sends it as a
  reply to the chat of the command: it is a direct message to the owner only when that
  chat is the owner's own.
\<close>

theorem makelist_empty_reply:
  assumes "ownerOnly cfg c" and "addressSet (snd (ensureChat s (chat_id c))) = []"
  shows "snd (handleMakeList cfg s c) = [SendMessage (chat_id c) ''No addresses collected yet.'']"
  using assms
  by (cases "ensureChat s (chat_id c)")
    (simp add: handleMakeList_def exportAddresses_def length_sortAddresses length_checksumAll reply_def)

theorem makelist_empty_reply_witness:
  "ownerOnly cfg0 groupCtx \<and> addressSet (snd (ensureChat initState (chat_id groupCtx))) = [] \<and>
   snd (handleMakeList cfg0 initState groupCtx) = [SendMessage (- 1001) ''No addresses collected yet.'']"
proof -
  have a: "ownerOnly cfg0 groupCtx"
    by (simp add: ownerOnly_def cfg0_def groupCtx_def)
  have b: "addressSet (snd (ensureChat initState (chat_id groupCtx))) = []"
    by (simp add: ensureChat_def initState_def addressSet_def newChat_def)
  from makelist_empty_reply [OF a b] a b show ?thesis
    by (simp add: groupCtx_def)
qed

text \<open>
  C9 as it is written fails: the owner asks in a group, and no message goes to the owner.
\<close>

theorem makelist_empty_not_direct:
  "\<not> (\<exists>t. SendMessage (ownerTelegramId cfg0) t \<in> set (snd (handleMakeList cfg0 initState groupCtx)))"
  by (simp add: handleMakeList_def ownerOnly_def cfg0_def groupCtx_def ensureChat_def initState_def
      exportAddresses_def sortAddresses_def checksumAll_def addressSet_def newChat_def reply_def)

subsection \<open>A command in a channel post\<close>

text \<open>
  C10. A channel post whose trimmed text starts with \<open>/help\<close>, \<open>/whoami\<close>, \<open>/status\<close> or
  \<open>/makelist\<close> is not given to the collector: after the post every chat has the addresses
  and the names it had, and no resolution has been started.
\<close>

theorem channel_command_not_collected:
  assumes "isCmd t ''help'' \<or> isCmd t ''whoami'' \<or> isCmd t ''status'' \<or> isCmd t ''makelist''"
  shows "channelRoute t \<noteq> RCollect \<and>
         collected (fst (step cfg s (ChannelPost c (Some t)))) chatId = collected s chatId \<and>
         attempts (fst (step cfg s (ChannelPost c (Some t)))) = attempts s \<and>
         inflight (fst (step cfg s (ChannelPost c (Some t)))) = inflight s"
proof -
  from assms have r: "channelRoute t \<noteq> RCollect"
    by (auto simp: channelRoute_def)
  from assms have ne: "t \<noteq> []"
    by (auto dest: isCmd_nonempty)
  show ?thesis
  proof (cases "channelRoute t")
    case RHelp
    with ne show ?thesis by (simp add: runRoute_def)
  next
    case RWhoami
    with ne show ?thesis by (simp add: runRoute_def)
  next
    case RStatus
    with ne show ?thesis by (simp add: runRoute_def handleStatus_frame)
  next
    case RMakeList
    with ne show ?thesis by (simp add: runRoute_def handleMakeList_frame)
  next
    case RCollect
    with r show ?thesis by simp
  qed
qed

theorem channel_command_not_collected_witness:
  "isCmd sampleText ''status'' \<and> channelRoute sampleText \<noteq> RCollect \<and>
   collected (fst (step cfg0 watchedState (ChannelPost channelCtx (Some sampleText)))) (- 1002) = ([], []) \<and>
   attempts (fst (step cfg0 watchedState (ChannelPost channelCtx (Some sampleText)))) = []"
proof -
  have h: "isCmd sampleText ''status''"
    by code_simp
  have c: "collected watchedState (- 1002) = ([], [])" "attempts watchedState = []"
    by (simp_all add: collected_def watchedState_def)
  from channel_command_not_collected [OF disjI2 [OF disjI2 [OF disjI1 [OF h]]],
      of cfg0 watchedState channelCtx "- 1002"] h c
  show ?thesis by simp
qed

end
